theory Spec2Isabelle
  imports Main "HOL-Library.Word"
begin

unbundle bit_operations_syntax

section \<open>Data model of \<^verbatim>\<open>include/modern-coapp.hpp\<close>\<close>

text \<open>
  The header defines \<^verbatim>\<open>struct option { uint32_t number; std::vector<uint8_t> value; }\<close>
  and \<^verbatim>\<open>class pdu\<close> with the private members \<^verbatim>\<open>_version\<close>, \<^verbatim>\<open>_type\<close>, \<^verbatim>\<open>_code\<close>
  (all \<^verbatim>\<open>uint8_t\<close>), \<^verbatim>\<open>_message_id\<close> (\<^verbatim>\<open>uint16_t\<close>), \<^verbatim>\<open>_token\<close>, \<^verbatim>\<open>_options\<close> and
  \<^verbatim>\<open>_payload\<close>. The record fields carry the names of the accessors; \<open>coap_option\<close>
  and \<open>opt_value\<close> stand for \<^verbatim>\<open>option\<close> and \<^verbatim>\<open>value\<close>, and \<open>pdu_from\<close> for \<^verbatim>\<open>pdu::from\<close>,
  whose names are taken in Isabelle.

  What the model assumes of the C++:
  \<^item> a \<^verbatim>\<open>std::vector<uint8_t>\<close> is a list of 8-bit words, and an iterator into it is an
    index; iterator arithmetic and comparison behind \<^verbatim>\<open>end()\<close> are index arithmetic, only
    a dereference there is an outcome of its own;
  \<^item> \<^verbatim>\<open>int\<close> has 32 bits and \<^verbatim>\<open>size_t\<close> at least as many; a conversion of a \<^verbatim>\<open>size_t\<close> to
    \<^verbatim>\<open>int\<close> or to \<^verbatim>\<open>uint32_t\<close> keeps the low 32 bits, and an \<^verbatim>\<open>int\<close> addition whose
    result is not an \<^verbatim>\<open>int\<close> is an outcome of its own;
  \<^item> memory never runs out: a vector of a size up to the largest \<^verbatim>\<open>int\<close> is allocated;
  \<^item> assertions are enabled (no \<^verbatim>\<open>NDEBUG\<close>);
  \<^item> the operands of \<^verbatim>\<open>(*(++it) << 8) | (*(++it))\<close> are evaluated left to right.
\<close>

type_synonym byte = "8 word"

record coap_option =
  number :: "32 word"
  opt_value :: "byte list"

record pdu =
  version :: byte
  type :: byte
  code :: byte
  message_id :: "16 word"
  token :: "byte list"
  options :: "coap_option list"
  payload :: "byte list"

text \<open>
  Every \<^verbatim>\<open>throw invalid_pdu()\<close> of the source raises the same exception class. The
  model tags each throw with the statement that raises it, so that theorems can say
  where a failure comes from. \<^verbatim>\<open>std::vector\<close> throws \<^verbatim>\<open>std::length_error\<close>, another
  exception class, when it is constructed with a size above \<^verbatim>\<open>max_size()\<close>. Three more
  outcomes are not exceptions: a dereference of an iterator at or behind \<^verbatim>\<open>bytes.end()\<close>
  and an overflowing \<^verbatim>\<open>int\<close> addition (both undefined behaviour in C++), and a failing
  \<^verbatim>\<open>assert\<close>, which aborts the process.
\<close>

datatype throw_site =
    BufferTooShort
  | UnsupportedVersion
  | TokenLengthOver8
  | TruncatedToken
  | ReservedLengthField
  | TruncatedOption
  | InvalidType
  | TokenTooLong

datatype failure =
    InvalidPdu throw_site
  | ReadPastEnd
  | WritePastEnd
  | AssertFailed
  | LengthError
  | SignedOverflow

text \<open>The default member initialisers: \<^verbatim>\<open>pdu() = default\<close>.\<close>

definition default_pdu :: pdu where
  "default_pdu = \<lparr>version = 1, type = 0, code = 0, message_id = 0,
     token = [], options = [], payload = []\<rparr>"

section \<open>Decoding: \<^verbatim>\<open>pdu::from\<close>\<close>

text \<open>\<^verbatim>\<open>*it\<close> for an iterator at index \<open>i\<close>: defined only inside the vector.\<close>

definition deref :: "byte list \<Rightarrow> nat \<Rightarrow> failure + byte" where
  "deref bytes i = (if i < length bytes then Inr (bytes ! i) else Inl ReadPastEnd)"

text \<open>
  Lines 34 to 51: the size check, the version, the type, the token length, the code and
  the message id. The result is the partly filled \<^verbatim>\<open>result\<close> and \<^verbatim>\<open>token_length\<close>.
\<close>

definition parse_header :: "byte list \<Rightarrow> failure + (pdu \<times> nat)" where
  "parse_header bytes =
     (if length bytes < 4 then Inl (InvalidPdu BufferTooShort)
      else
        let header = bytes ! 0;
            result = default_pdu\<lparr>version := drop_bit 6 header\<rparr>
        in if version result \<noteq> 1 then Inl (InvalidPdu UnsupportedVersion)
           else
             let result = result\<lparr>type := drop_bit 4 (header AND 0x30)\<rparr>;
                 token_length = header AND 0x0F
             in if token_length > 8 then Inl (InvalidPdu TokenLengthOver8)
                else
                  Inr (result\<lparr>code := bytes ! 1,
                         message_id := push_bit 8 (ucast (bytes ! 2)) OR ucast (bytes ! 3)\<rparr>,
                       unat token_length))"

text \<open>
  The lambda \<^verbatim>\<open>parse_value\<close> (lines 74 to 81) resolves one nibble. It advances the
  iterator with \<^verbatim>\<open>*(++it)\<close> and has no bounds check of its own. The two reads of the
  16-bit extension are taken left to right, high byte first.
\<close>

definition parse_value :: "byte list \<Rightarrow> nat \<Rightarrow> 32 word \<Rightarrow> failure + (32 word \<times> nat)" where
  "parse_value bytes it val =
     (if val = 13 then
        (case deref bytes (it + 1) of
           Inl e \<Rightarrow> Inl e
         | Inr b \<Rightarrow> Inr (13 + ucast b, it + 1))
      else if val = 14 then
        (case deref bytes (it + 1) of
           Inl e \<Rightarrow> Inl e
         | Inr hi \<Rightarrow>
             (case deref bytes (it + 2) of
                Inl e \<Rightarrow> Inl e
              | Inr lo \<Rightarrow> Inr (269 + (push_bit 8 (ucast hi) OR ucast lo), it + 2)))
      else if val = 15 then Inl (InvalidPdu ReservedLengthField)
      else Inr (val, it))"

text \<open>
  One pass of the body of the \<^verbatim>\<open>while\<close> loop (lines 71 to 97), entered with
  \<^verbatim>\<open>it < bytes.end()\<close>: the new option and the iterator behind it.
\<close>

definition parse_option :: "byte list \<Rightarrow> nat \<Rightarrow> 32 word \<Rightarrow> failure + (coap_option \<times> nat)" where
  "parse_option bytes it option_number =
     (case parse_value bytes it (ucast (drop_bit 4 (bytes ! it))) of
        Inl e \<Rightarrow> Inl e
      | Inr (option_delta, it1) \<Rightarrow>
          (case parse_value bytes it1 (ucast (bytes ! it AND 0x0F)) of
             Inl e \<Rightarrow> Inl e
           | Inr (option_length, it2) \<Rightarrow>
               let it3 = it2 + 1;
                   option_end = it3 + unat option_length
               in if option_end > length bytes then Inl (InvalidPdu TruncatedOption)
                  else Inr (\<lparr>number = option_number + option_delta,
                              opt_value = take (unat option_length) (drop it3 bytes)\<rparr>,
                            option_end)))"

lemma parse_value_advances:
  "parse_value bytes it val = Inr (v, it') \<Longrightarrow> it \<le> it'"
  by (auto simp: parse_value_def split: if_splits sum.splits)

lemma parse_option_advances:
  "parse_option bytes it n = Inr (opt, it') \<Longrightarrow> it < it'"
  by (auto simp: parse_option_def Let_def split: if_splits sum.splits prod.splits
      dest!: parse_value_advances)

text \<open>
  The \<^verbatim>\<open>while\<close> loop of lines 68 to 98. It returns the options appended to
  \<^verbatim>\<open>result._options\<close> and the iterator at which the loop stopped.
\<close>

function parse_options ::
  "byte list \<Rightarrow> nat \<Rightarrow> 32 word \<Rightarrow> coap_option list \<Rightarrow> failure + (coap_option list \<times> nat)" where
  "parse_options bytes it option_number opts =
     (if it < length bytes \<and> bytes ! it \<noteq> 0xFF then
        (case parse_option bytes it option_number of
           Inl e \<Rightarrow> Inl e
         | Inr (opt, option_end) \<Rightarrow>
             parse_options bytes option_end (number opt) (opts @ [opt]))
      else Inr (opts, it))"
  by pat_completeness auto
termination
proof (relation "measure (\<lambda>(bytes, it, n, opts). Suc (length bytes) - it)")
  show "wf (measure (\<lambda>(bytes, it, n, opts). Suc (length bytes) - it))"
    by simp
next
  fix bytes :: "byte list" and it :: nat and option_number :: "32 word"
    and opts :: "coap_option list" and x2 :: "coap_option \<times> nat"
    and opt :: coap_option and option_end :: nat
  assume "it < length bytes \<and> bytes ! it \<noteq> 0xFF"
    and "parse_option bytes it option_number = Inr x2"
    and "(opt, option_end) = x2"
  then have "it < option_end"
    using parse_option_advances [of bytes it option_number opt option_end] by simp
  moreover have "it < length bytes"
    using \<open>it < length bytes \<and> bytes ! it \<noteq> 0xFF\<close> by simp
  ultimately have "Suc (length bytes) - option_end < Suc (length bytes) - it"
    by arith
  then show "((bytes, option_end, number opt, opts @ [opt]), (bytes, it, option_number, opts))
        \<in> measure (\<lambda>(bytes, it, n, opts). Suc (length bytes) - it)"
    by simp
qed

declare parse_options.simps [simp del]

text \<open>
  The whole of \<^verbatim>\<open>pdu::from\<close>: header, token (lines 54 to 60), the early return of
  line 62, the option loop, the return of line 100 and the payload behind the
  separator (lines 104 to 107).
\<close>

definition pdu_from :: "byte list \<Rightarrow> failure + pdu" where
  "pdu_from bytes =
     (case parse_header bytes of
        Inl e \<Rightarrow> Inl e
      | Inr (result, token_length) \<Rightarrow>
          let token_offset = 4;
              it = token_offset + token_length
          in if it > length bytes then Inl (InvalidPdu TruncatedToken)
             else
               let result = result\<lparr>token := take token_length (drop token_offset bytes)\<rparr>
               in if it \<ge> length bytes then Inr result
                  else
                    (case parse_options bytes it 0 [] of
                       Inl e \<Rightarrow> Inl e
                     | Inr (opts, it') \<Rightarrow>
                         let result = result\<lparr>options := opts\<rparr>
                         in if it' \<ge> length bytes then Inr result
                            else Inr (result\<lparr>payload := drop (it' + 1) bytes\<rparr>)))"

section \<open>Mutators\<close>

text \<open>
  A mutator returns its outcome together with the object after the call, so that a
  throwing call shows what it left behind. \<^verbatim>\<open>set_code\<close> and \<^verbatim>\<open>set_message_id\<close> are not
  in \<^verbatim>\<open>include/modern-coapp.hpp\<close>; they are the setters of the variant of the header that
  declares the enumerations \<^verbatim>\<open>Type\<close> and \<^verbatim>\<open>Code\<close>.
\<close>

definition set_type :: "byte \<Rightarrow> pdu \<Rightarrow> (failure + unit) \<times> pdu" where
  "set_type t p =
     (if t > 3 then (Inl (InvalidPdu InvalidType), p)
      else (Inr (), p\<lparr>type := t\<rparr>))"

definition set_token :: "byte list \<Rightarrow> pdu \<Rightarrow> (failure + unit) \<times> pdu" where
  "set_token tok p =
     (if length tok > 8 then (Inl (InvalidPdu TokenTooLong), p)
      else (Inr (), p\<lparr>token := tok\<rparr>))"

definition add_option :: "coap_option \<Rightarrow> pdu \<Rightarrow> (failure + unit) \<times> pdu" where
  "add_option opt p = (Inr (), p\<lparr>options := options p @ [opt]\<rparr>)"

definition set_payload :: "byte list \<Rightarrow> pdu \<Rightarrow> (failure + unit) \<times> pdu" where
  "set_payload pl p = (Inr (), p\<lparr>payload := pl\<rparr>)"

definition set_code :: "byte \<Rightarrow> pdu \<Rightarrow> (failure + unit) \<times> pdu" where
  "set_code c p = (Inr (), p\<lparr>code := c\<rparr>)"

definition set_message_id :: "16 word \<Rightarrow> pdu \<Rightarrow> (failure + unit) \<times> pdu" where
  "set_message_id mid p = (Inr (), p\<lparr>message_id := mid\<rparr>)"

subsection \<open>The variant with a sorted container\<close>

text \<open>
  Another variant of the header keeps \<^verbatim>\<open>_options\<close> in a
  \<^verbatim>\<open>std::multimap<uint32_t, std::vector<uint8_t>>\<close>. Its \<^verbatim>\<open>add_option(number, value)\<close> is
  \<^verbatim>\<open>_options.emplace(...)\<close>, which puts the entry behind the entries with an equal key, and
  its \<^verbatim>\<open>to_bytes\<close> walks the container in key order. On the scenario it gives the message
  with the options in ascending order.
\<close>

fun emplace :: "coap_option \<Rightarrow> coap_option list \<Rightarrow> coap_option list" where
  "emplace x [] = [x]"
| "emplace x (y # ys) = (if number y \<le> number x then y # emplace x ys else x # y # ys)"

definition add_option_multimap :: "32 word \<Rightarrow> byte list \<Rightarrow> pdu \<Rightarrow> (failure + unit) \<times> pdu" where
  "add_option_multimap n v p =
     (Inr (), p\<lparr>options := emplace \<lparr>number = n, opt_value = v\<rparr> (options p)\<rparr>)"

section \<open>Encoding: \<^verbatim>\<open>pdu::to_bytes\<close>\<close>

text \<open>
  The lambdas \<^verbatim>\<open>get_size\<close> (lines 127 to 135) and \<^verbatim>\<open>get_nibble\<close> (lines 161 to 167).
  Both take a \<^verbatim>\<open>const uint32_t&\<close>: a \<^verbatim>\<open>value.size()\<close> passed to them is converted to
  32 bits.
\<close>

definition get_size :: "32 word \<Rightarrow> nat" where
  "get_size val = (if val < 13 then 0 else if val < 269 then 1 else 2)"

definition get_nibble :: "32 word \<Rightarrow> byte" where
  "get_nibble val = (if val < 13 then ucast val else if val < 269 then 13 else 14)"

definition size32 :: "byte list \<Rightarrow> 32 word" where
  "size32 v = of_nat (length v)"

text \<open>
  \<^verbatim>\<open>auto required_size = 4\<close> declares an \<^verbatim>\<open>int\<close>, here a 32-bit word read in two's
  complement. \<^verbatim>\<open>required_size += n\<close> with an \<^verbatim>\<open>int\<close> operand (the literal 1, a result of
  \<^verbatim>\<open>get_size\<close>) is an \<^verbatim>\<open>int\<close> addition, which must not overflow. With a \<^verbatim>\<open>size_t\<close> operand
  (a \<^verbatim>\<open>size()\<close>) the sum is formed in \<^verbatim>\<open>size_t\<close> and converted back to \<^verbatim>\<open>int\<close>: it wraps
  around.
\<close>

definition add_int :: "32 word \<Rightarrow> 32 word \<Rightarrow> failure + 32 word" where
  "add_int a b =
     (if - (2 ^ 31) \<le> sint a + sint b \<and> sint a + sint b < 2 ^ 31 then Inr (a + b)
      else Inl SignedOverflow)"

definition add_size :: "32 word \<Rightarrow> nat \<Rightarrow> 32 word" where
  "add_size a n = a + of_nat n"

text \<open>
  The first loop over \<^verbatim>\<open>_options\<close> (lines 121 to 139), which adds up
  \<^verbatim>\<open>required_size\<close>. \<^verbatim>\<open>prev_delta\<close> is an \<^verbatim>\<open>int\<close> in the source; the difference
  \<^verbatim>\<open>option.number - prev_delta\<close> is computed in \<^verbatim>\<open>uint32_t\<close> and wraps around.
\<close>

fun size_options :: "coap_option list \<Rightarrow> 32 word \<Rightarrow> 32 word \<Rightarrow> failure + 32 word" where
  "size_options [] prev_delta required_size = Inr required_size"
| "size_options (opt # rest) prev_delta required_size =
     (case add_int required_size 1 of
        Inl e \<Rightarrow> Inl e
      | Inr required_size \<Rightarrow>
          (let option_delta = number opt - prev_delta
           in case add_int required_size (of_nat (get_size option_delta)) of
                Inl e \<Rightarrow> Inl e
              | Inr required_size \<Rightarrow>
                  (case add_int required_size (of_nat (get_size (size32 (opt_value opt)))) of
                     Inl e \<Rightarrow> Inl e
                   | Inr required_size \<Rightarrow>
                       size_options rest (number opt)
                         (add_size required_size (length (opt_value opt))))))"

text \<open>
  \<^verbatim>\<open>std::vector<uint8_t> bytes(required_size)\<close>: the \<^verbatim>\<open>int\<close> is converted to the unsigned
  \<^verbatim>\<open>size_type\<close>, so a negative size is one above \<^verbatim>\<open>max_size()\<close>, and the constructor
  throws. Otherwise the vector holds that many zero bytes.
\<close>

definition vector_of_size :: "32 word \<Rightarrow> failure + byte list" where
  "vector_of_size required_size =
     (if sint required_size < 0 then Inl LengthError
      else Inr (replicate (nat (sint required_size)) 0))"

text \<open>
  \<^verbatim>\<open>*it = b\<close> for an iterator at index \<open>i\<close> of the output vector, and
  \<^verbatim>\<open>std::copy(first, last, it)\<close>, which stores one element after the other.
\<close>

definition store :: "byte list \<Rightarrow> nat \<Rightarrow> byte \<Rightarrow> failure + byte list" where
  "store bytes i b = (if i < length bytes then Inr (bytes[i := b]) else Inl WritePastEnd)"

fun copy :: "byte list \<Rightarrow> byte list \<Rightarrow> nat \<Rightarrow> failure + byte list" where
  "copy [] bytes i = Inr bytes"
| "copy (x # xs) bytes i =
     (case store bytes i x of
        Inl e \<Rightarrow> Inl e
      | Inr bytes' \<Rightarrow> copy xs bytes' (i + 1))"

text \<open>
  The lambda \<^verbatim>\<open>encode_val\<close> (lines 173 to 185). It writes with \<^verbatim>\<open>*(++it)\<close>, so the
  iterator stays on the last byte written. The \<^verbatim>\<open>assert\<close> of line 181 is the only
  check of the range of a delta or a length.
\<close>

definition encode_val ::
  "byte \<Rightarrow> 32 word \<Rightarrow> byte list \<Rightarrow> nat \<Rightarrow> failure + (byte list \<times> nat)" where
  "encode_val nibble val bytes it =
     (if nibble < 13 then Inr (bytes, it)
      else if nibble = 13 then
        (case store bytes (it + 1) (ucast (val - 13)) of
           Inl e \<Rightarrow> Inl e
         | Inr bytes1 \<Rightarrow> Inr (bytes1, it + 1))
      else if nibble = 14 then
        (let encoded_val = val - 269
         in if \<not> encoded_val \<le> 0xFFFF then Inl AssertFailed
            else
              (case store bytes (it + 1) (ucast (drop_bit 8 encoded_val)) of
                 Inl e \<Rightarrow> Inl e
               | Inr bytes1 \<Rightarrow>
                   (case store bytes1 (it + 2) (ucast encoded_val) of
                      Inl e \<Rightarrow> Inl e
                    | Inr bytes2 \<Rightarrow> Inr (bytes2, it + 2))))
      else Inr (bytes, it))"

text \<open>The second loop over \<^verbatim>\<open>_options\<close> (lines 155 to 192), which writes them.\<close>

fun write_options ::
  "coap_option list \<Rightarrow> 32 word \<Rightarrow> byte list \<Rightarrow> nat \<Rightarrow> failure + (byte list \<times> nat)" where
  "write_options [] prev_delta bytes it = Inr (bytes, it)"
| "write_options (opt # rest) prev_delta bytes it =
     (let option_delta = number opt - prev_delta;
          delta_nibble = get_nibble option_delta;
          length_nibble = get_nibble (size32 (opt_value opt))
      in case store bytes it (push_bit 4 delta_nibble OR length_nibble) of
           Inl e \<Rightarrow> Inl e
         | Inr bytes1 \<Rightarrow>
             (case encode_val delta_nibble option_delta bytes1 it of
                Inl e \<Rightarrow> Inl e
              | Inr (bytes2, it2) \<Rightarrow>
                  (case encode_val length_nibble (size32 (opt_value opt)) bytes2 it2 of
                     Inl e \<Rightarrow> Inl e
                   | Inr (bytes3, it3) \<Rightarrow>
                       (case copy (opt_value opt) bytes3 (it3 + 1) of
                          Inl e \<Rightarrow> Inl e
                        | Inr bytes4 \<Rightarrow>
                            write_options rest (number opt) bytes4
                              (it3 + 1 + length (opt_value opt))))))"

text \<open>
  \<^verbatim>\<open>to_bytes\<close>: the size, the zero-filled vector, the header bytes, the token, the
  options, and the separator with the payload when there is one. \<^verbatim>\<open>bytes[i] = b\<close> is an
  unchecked store like \<^verbatim>\<open>*it = b\<close>.
\<close>

definition to_bytes :: "pdu \<Rightarrow> failure + byte list" where
  "to_bytes p =
     (let required_size = 4;
          required_size = add_size required_size (length (token p));
          required_size =
            (if length (payload p) \<noteq> 0 then add_size required_size (1 + length (payload p))
             else required_size)
      in case size_options (options p) 0 required_size of
           Inl e \<Rightarrow> Inl e
         | Inr required_size \<Rightarrow>
      (case vector_of_size required_size of
           Inl e \<Rightarrow> Inl e
         | Inr bytes \<Rightarrow>
      (case store bytes 0 (push_bit 6 (version p) OR push_bit 4 (type p)
                             OR of_nat (length (token p))) of
           Inl e \<Rightarrow> Inl e
         | Inr bytes \<Rightarrow>
      (case store bytes 1 (code p) of
           Inl e \<Rightarrow> Inl e
         | Inr bytes \<Rightarrow>
      (case store bytes 2 (ucast (drop_bit 8 (message_id p))) of
           Inl e \<Rightarrow> Inl e
         | Inr bytes \<Rightarrow>
      (case store bytes 3 (ucast (message_id p)) of
           Inl e \<Rightarrow> Inl e
         | Inr bytes \<Rightarrow>
      (let it = 4
       in case copy (token p) bytes it of
            Inl e \<Rightarrow> Inl e
          | Inr bytes \<Rightarrow>
              (case write_options (options p) 0 bytes (it + length (token p)) of
                 Inl e \<Rightarrow> Inl e
               | Inr (bytes, it) \<Rightarrow>
                   if length (payload p) \<noteq> 0 then
                     (case store bytes it 0xFF of
                        Inl e \<Rightarrow> Inl e
                      | Inr bytes \<Rightarrow> copy (payload p) bytes (it + 1))
                   else Inr bytes))))))))"

section \<open>Notions used to state the properties\<close>

text \<open>
  The specification groups the throws of the header stage as \<open>MalformedHeader\<close> and those
  of the option loop as \<open>MalformedOption\<close>.
\<close>

definition malformed_header :: "failure \<Rightarrow> bool" where
  "malformed_header e \<longleftrightarrow>
     e = InvalidPdu BufferTooShort \<or> e = InvalidPdu UnsupportedVersion
     \<or> e = InvalidPdu TokenLengthOver8"

definition malformed_option :: "failure \<Rightarrow> bool" where
  "malformed_option e \<longleftrightarrow>
     e = InvalidPdu ReservedLengthField \<or> e = InvalidPdu TruncatedOption"

text \<open>
  A sequence of mutator calls on one object. An exception leaves the sequence at the
  failing call, as it would leave the calling block.
\<close>

datatype mutation =
    SetType byte
  | SetCode byte
  | SetMessageId "16 word"
  | SetToken "byte list"
  | AddOption coap_option
  | SetPayload "byte list"

fun mutate :: "mutation \<Rightarrow> pdu \<Rightarrow> (failure + unit) \<times> pdu" where
  "mutate (SetType t) p = set_type t p"
| "mutate (SetCode c) p = set_code c p"
| "mutate (SetMessageId mid) p = set_message_id mid p"
| "mutate (SetToken tok) p = set_token tok p"
| "mutate (AddOption opt) p = add_option opt p"
| "mutate (SetPayload pl) p = set_payload pl p"

fun build :: "mutation list \<Rightarrow> pdu \<Rightarrow> failure + pdu" where
  "build [] p = Inr p"
| "build (c # cs) p =
     (case mutate c p of
        (Inl e, _) \<Rightarrow> Inl e
      | (Inr _, p') \<Rightarrow> build cs p')"

text \<open>
  The bytes of the wire format, written as lists: the extension bytes of a delta or a
  length, one option entry, a run of entries, the four header bytes, and the separator with the
  payload. The lemmas
  below show that \<open>to_bytes\<close> stores exactly these.
\<close>

definition ext_bytes :: "32 word \<Rightarrow> byte list" where
  "ext_bytes val =
     (if val < 13 then []
      else if val < 269 then [ucast (val - 13)]
      else [ucast (drop_bit 8 (val - 269)), ucast (val - 269)])"

definition option_bytes :: "32 word \<Rightarrow> coap_option \<Rightarrow> byte list" where
  "option_bytes prev opt =
     (push_bit 4 (get_nibble (number opt - prev)) OR get_nibble (size32 (opt_value opt)))
     # ext_bytes (number opt - prev) @ ext_bytes (size32 (opt_value opt)) @ opt_value opt"

fun options_bytes :: "32 word \<Rightarrow> coap_option list \<Rightarrow> byte list" where
  "options_bytes prev [] = []"
| "options_bytes prev (opt # rest) = option_bytes prev opt @ options_bytes (number opt) rest"

definition header_bytes :: "pdu \<Rightarrow> byte list" where
  "header_bytes p =
     [push_bit 6 (version p) OR push_bit 4 (type p) OR of_nat (length (token p)),
      code p, ucast (drop_bit 8 (message_id p)), ucast (message_id p)]"

definition payload_bytes :: "byte list \<Rightarrow> byte list" where
  "payload_bytes pl = (if pl = [] then [] else 0xFF # pl)"

definition wire_bytes :: "pdu \<Rightarrow> byte list" where
  "wire_bytes p =
     header_bytes p @ token p @ options_bytes 0 (options p) @ payload_bytes (payload p)"

text \<open>
  What the encoder can represent: every delta (computed as the encoder does, against the
  previous option's number, starting from 0) and every value length at most 65804.
  \<open>options_encodable\<close> takes the length as the encoder sees it, converted to 32 bits.
\<close>

fun options_representable :: "32 word \<Rightarrow> coap_option list \<Rightarrow> bool" where
  "options_representable prev [] = True"
| "options_representable prev (opt # rest) =
     (number opt - prev \<le> 65804 \<and> length (opt_value opt) \<le> 65804
      \<and> options_representable (number opt) rest)"

fun options_encodable :: "32 word \<Rightarrow> coap_option list \<Rightarrow> bool" where
  "options_encodable prev [] = True"
| "options_encodable prev (opt # rest) =
     (number opt - prev \<le> 65804 \<and> size32 (opt_value opt) \<le> 65804
      \<and> options_encodable (number opt) rest)"

text \<open>
  The iterator at which the option loop of \<open>pdu_from\<close> stops, when decoding gets that far
  (with the early return of line 62 counted as a loop over no entry).
\<close>

definition option_loop_end :: "byte list \<Rightarrow> nat option" where
  "option_loop_end bytes =
     (case parse_header bytes of
        Inl e \<Rightarrow> None
      | Inr (result, token_length) \<Rightarrow>
          if 4 + token_length > length bytes then None
          else
            (case parse_options bytes (4 + token_length) 0 [] of
               Inl e \<Rightarrow> None
             | Inr (opts, it') \<Rightarrow> Some it'))"

text \<open>
  A failure a caller can catch: only a thrown exception. A failed \<^verbatim>\<open>assert\<close> ends the
  process, and undefined behaviour promises nothing.
\<close>

fun catchable :: "failure \<Rightarrow> bool" where
  "catchable (InvalidPdu site) = True"
| "catchable LengthError = True"
| "catchable e = False"

section \<open>The scenario of the test suite\<close>

text \<open>
  The bytes and the calls of the test cases \<^verbatim>\<open>PDU with multiple options should parse
  correctly 2\<close> and \<^verbatim>\<open>should be able to insert options in any order\<close>: type 2, code 2,
  message id 256, the options 66077, 5, 1, 2 and 273 added in that order, and the
  payload \<^verbatim>\<open>BBBB\<close>.
\<close>

definition scenario_options :: "coap_option list" where
  "scenario_options =
     [\<lparr>number = 66077, opt_value = [0xFF, 0xFF, 0xFF]\<rparr>,
      \<lparr>number = 5, opt_value = [0xFF, 0xFF, 0xFF]\<rparr>,
      \<lparr>number = 1, opt_value = [0xFF]\<rparr>,
      \<lparr>number = 2, opt_value = [0xFF]\<rparr>,
      \<lparr>number = 273, opt_value = [0xFF, 0xFF, 0xFF]\<rparr>]"

definition scenario_calls :: "mutation list" where
  "scenario_calls =
     [SetType 2, SetCode 2, SetMessageId 256] @ map AddOption scenario_options
     @ [SetPayload [0x42, 0x42, 0x42, 0x42]]"

definition scenario_target :: "byte list" where
  "scenario_target =
     [0x60, 2, 1, 0,
      0x11, 0xFF,
      0x11, 0xFF,
      0x33, 0xFF, 0xFF, 0xFF,
      0xD3, 0xFF, 0xFF, 0xFF, 0xFF,
      0xE3, 0xFF, 0xFF, 0xFF, 0xFF, 0xFF,
      0xFF, 0x42, 0x42, 0x42, 0x42]"

definition ascending_calls :: "mutation list" where
  "ascending_calls =
     [SetType 2, SetCode 2, SetMessageId 256,
      AddOption \<lparr>number = 1, opt_value = [0xFF]\<rparr>,
      AddOption \<lparr>number = 2, opt_value = [0xFF]\<rparr>,
      AddOption \<lparr>number = 5, opt_value = [0xFF, 0xFF, 0xFF]\<rparr>,
      AddOption \<lparr>number = 273, opt_value = [0xFF, 0xFF, 0xFF]\<rparr>,
      AddOption \<lparr>number = 66077, opt_value = [0xFF, 0xFF, 0xFF]\<rparr>,
      SetPayload [0x42, 0x42, 0x42, 0x42]]"

definition ascending_pdu :: pdu where
  "ascending_pdu =
     \<lparr>version = 1, type = 2, code = 2, message_id = 256, token = [],
      options = [\<lparr>number = 1, opt_value = [0xFF]\<rparr>,
                 \<lparr>number = 2, opt_value = [0xFF]\<rparr>,
                 \<lparr>number = 5, opt_value = [0xFF, 0xFF, 0xFF]\<rparr>,
                 \<lparr>number = 273, opt_value = [0xFF, 0xFF, 0xFF]\<rparr>,
                 \<lparr>number = 66077, opt_value = [0xFF, 0xFF, 0xFF]\<rparr>],
      payload = [0x42, 0x42, 0x42, 0x42]\<rparr>"

text \<open>
  The smallest message \<open>to_bytes\<close> cannot encode: one option whose delta is 65805.
\<close>

definition too_large_pdu :: pdu where
  "too_large_pdu = default_pdu\<lparr>options := [\<lparr>number = 65805, opt_value = []\<rparr>]\<rparr>"

text \<open>
  Two options added in descending order of their numbers, the message these calls build,
  and the message with the same options in ascending order.
\<close>

definition out_of_order_calls :: "mutation list" where
  "out_of_order_calls =
     [AddOption \<lparr>number = 5, opt_value = [0x35]\<rparr>, AddOption \<lparr>number = 1, opt_value = [0x31]\<rparr>]"

definition out_of_order_pdu :: pdu where
  "out_of_order_pdu =
     default_pdu\<lparr>options := [\<lparr>number = 5, opt_value = [0x35]\<rparr>,
                               \<lparr>number = 1, opt_value = [0x31]\<rparr>]\<rparr>"

definition in_order_pdu :: pdu where
  "in_order_pdu =
     default_pdu\<lparr>options := [\<lparr>number = 1, opt_value = [0x31]\<rparr>,
                               \<lparr>number = 5, opt_value = [0x35]\<rparr>]\<rparr>"

text \<open>A message whose only option has the number 18 and an empty value.\<close>

definition empty_value_pdu :: pdu where
  "empty_value_pdu = default_pdu\<lparr>options := [\<lparr>number = 18, opt_value = []\<rparr>]\<rparr>"

text \<open>The message the calls of the scenario build: the options stay in call order.\<close>

definition scenario_pdu :: pdu where
  "scenario_pdu = ascending_pdu\<lparr>options := scenario_options\<rparr>"

section \<open>Words and bytes\<close>

lemma unat_byte_less: "unat (b :: byte) < 256"
  using unsigned_less [of b, where 'a = nat] by simp

lemma unat_ucast_byte16: "unat (ucast (b :: byte) :: 16 word) = unat b"
  using unat_byte_less [of b] by (simp add: unsigned_ucast_eq take_bit_nat_eq_self)

lemma unat_ucast_byte32: "unat (ucast (b :: byte) :: 32 word) = unat b"
  using unat_byte_less [of b] by (simp add: unsigned_ucast_eq take_bit_nat_eq_self)

lemma unat_push8_byte16: "unat (push_bit 8 (ucast (hi :: byte)) :: 16 word) = 256 * unat hi"
  using unat_byte_less [of hi] by (simp add: push_bit_eq_mult unat_word_ariths unat_ucast_byte16)

lemma unat_push8_byte32: "unat (push_bit 8 (ucast (hi :: byte)) :: 32 word) = 256 * unat hi"
  using unat_byte_less [of hi] by (simp add: push_bit_eq_mult unat_word_ariths unat_ucast_byte32)

lemma or_plus16:
  "(push_bit 8 (ucast (hi :: byte)) OR ucast (lo :: byte) :: 16 word)
     = push_bit 8 (ucast hi) + ucast lo"
  by (rule disjunctive_add [symmetric]) (auto simp: bit_simps dest: bit_imp_le_length)

lemma or_plus32:
  "(push_bit 8 (ucast (hi :: byte)) OR ucast (lo :: byte) :: 32 word)
     = push_bit 8 (ucast hi) + ucast lo"
  by (rule disjunctive_add [symmetric]) (auto simp: bit_simps dest: bit_imp_le_length)

lemma unat_big_endian16:
  "unat (push_bit 8 (ucast (hi :: byte)) OR ucast (lo :: byte) :: 16 word)
     = 256 * unat hi + unat lo"
  unfolding or_plus16 using unat_byte_less [of hi] unat_byte_less [of lo]
  by (simp add: unat_word_ariths unat_ucast_byte16 unat_push8_byte16)

lemma unat_big_endian32:
  "unat (push_bit 8 (ucast (hi :: byte)) OR ucast (lo :: byte) :: 32 word)
     = 256 * unat hi + unat lo"
  unfolding or_plus32 using unat_byte_less [of hi] unat_byte_less [of lo]
  by (simp add: unat_word_ariths unat_ucast_byte32 unat_push8_byte32)

lemma unat_low_byte32: "unat (ucast (x :: 32 word) :: byte) = unat x mod 256"
  by (simp add: unsigned_ucast_eq take_bit_eq_mod)

lemma unat_high_byte32:
  "x \<le> 0xFFFF \<Longrightarrow> unat (ucast (drop_bit 8 (x :: 32 word)) :: byte) = unat x div 256"
  unfolding unsigned_ucast_eq unat_drop_bit_eq
  by (simp add: drop_bit_eq_div take_bit_eq_mod word_le_nat_alt)

lemma unat_low_byte16: "unat (ucast (x :: 16 word) :: byte) = unat x mod 256"
  by (simp add: unsigned_ucast_eq take_bit_eq_mod)

lemma unat_high_byte16: "unat (ucast (drop_bit 8 (x :: 16 word)) :: byte) = unat x div 256"
  using unsigned_less [of x, where 'a = nat]
  unfolding unsigned_ucast_eq unat_drop_bit_eq
  by (simp add: drop_bit_eq_div take_bit_eq_mod)

lemma low_nibble_bits: "h AND 0x0F = take_bit 4 (h :: byte)"
  by (simp add: take_bit_eq_mask mask_eq_exp_minus_1)

lemma and_3_bits: "h AND 3 = take_bit 2 (h :: byte)"
  by (simp add: take_bit_eq_mask mask_eq_exp_minus_1)

section \<open>The header stage\<close>

lemma parse_header_Inl:
  "(\<exists>e. parse_header b = Inl e) \<longleftrightarrow>
     (length b < 4 \<or> drop_bit 6 (b ! 0) \<noteq> 1 \<or> 8 < take_bit 4 (b ! 0))"
  by (auto simp: parse_header_def Let_def default_pdu_def low_nibble_bits)

lemma parse_header_Inl_malformed:
  "parse_header b = Inl e \<Longrightarrow> malformed_header e"
  by (auto simp: parse_header_def Let_def malformed_header_def split: if_splits)

lemma parse_header_Inr:
  "\<not> (length b < 4 \<or> drop_bit 6 (b ! 0) \<noteq> 1 \<or> 8 < take_bit 4 (b ! 0)) \<Longrightarrow>
     parse_header b =
       Inr (default_pdu\<lparr>version := 1, type := take_bit 2 (drop_bit 4 (b ! 0)), code := b ! 1,
              message_id := push_bit 8 (ucast (b ! 2)) OR ucast (b ! 3)\<rparr>,
            unat (take_bit 4 (b ! 0)))"
  by (simp add: parse_header_def Let_def default_pdu_def low_nibble_bits and_3_bits)

lemma parse_value_Inl:
  "parse_value bytes it val = Inl e \<Longrightarrow> e = ReadPastEnd \<or> e = InvalidPdu ReservedLengthField"
  by (auto simp: parse_value_def deref_def split: if_splits)

lemma parse_option_Inl:
  assumes "parse_option bytes it n = Inl e"
  shows "e = ReadPastEnd \<or> e = InvalidPdu ReservedLengthField \<or> e = InvalidPdu TruncatedOption"
proof (cases "parse_value bytes it (ucast (drop_bit 4 (bytes ! it)))")
  case (Inl e1)
  with assms show ?thesis
    by (auto simp: parse_option_def dest: parse_value_Inl)
next
  case (Inr r1)
  obtain d it1 where r1: "r1 = (d, it1)" by (cases r1)
  show ?thesis
  proof (cases "parse_value bytes it1 (ucast (bytes ! it AND 0x0F))")
    case (Inl e2)
    with assms Inr r1 show ?thesis
      by (auto simp: parse_option_def dest: parse_value_Inl)
  next
    case inr2: (Inr r2)
    with assms Inr r1 show ?thesis
      by (cases r2) (auto simp: parse_option_def Let_def split: if_splits)
  qed
qed

lemma parse_options_Inl:
  "parse_options bytes it n opts = Inl e \<Longrightarrow>
     e = ReadPastEnd \<or> e = InvalidPdu ReservedLengthField \<or> e = InvalidPdu TruncatedOption"
proof (induction bytes it n opts rule: parse_options.induct)
  case (1 bytes it option_number opts)
  show ?case
  proof (cases "parse_option bytes it option_number")
    case (Inl e')
    with "1.prems" show ?thesis
      by (subst (asm) parse_options.simps) (auto split: if_splits dest: parse_option_Inl)
  next
    case (Inr r)
    obtain opt e' where r: "r = (opt, e')" by (cases r)
    from "1.prems" Inr r have c: "it < length bytes \<and> bytes ! it \<noteq> 0xFF"
      by (subst (asm) parse_options.simps) (auto split: if_splits)
    with "1.prems" Inr r have "parse_options bytes e' (number opt) (opts @ [opt]) = Inl e"
      by (subst (asm) parse_options.simps) simp
    with "1.IH" [OF c Inr r [symmetric]] show ?thesis by simp
  qed
qed

lemma parse_options_not_header:
  "parse_options bytes it n opts = Inl e \<Longrightarrow> \<not> malformed_header e"
  by (auto simp: malformed_header_def dest: parse_options_Inl)

lemma pdu_from_unfold:
  "parse_header b = Inr (h, tkl) \<Longrightarrow>
     pdu_from b =
       (if 4 + tkl > length b then Inl (InvalidPdu TruncatedToken)
        else if 4 + tkl \<ge> length b then Inr (h\<lparr>token := take tkl (drop 4 b)\<rparr>)
        else
          (case parse_options b (4 + tkl) 0 [] of
             Inl e \<Rightarrow> Inl e
           | Inr (opts, it') \<Rightarrow>
               if it' \<ge> length b then Inr (h\<lparr>token := take tkl (drop 4 b), options := opts\<rparr>)
               else Inr (h\<lparr>token := take tkl (drop 4 b), options := opts,
                           payload := drop (it' + 1) b\<rparr>)))"
  unfolding pdu_from_def Let_def by simp

lemma pdu_from_header_failure:
  "(\<exists>e. pdu_from b = Inl e \<and> malformed_header e) \<longleftrightarrow> (\<exists>e. parse_header b = Inl e)"
proof (cases "parse_header b")
  case (Inl e)
  then have "pdu_from b = Inl e"
    by (simp add: pdu_from_def)
  with Inl show ?thesis
    by (auto dest: parse_header_Inl_malformed)
next
  case (Inr r)
  obtain h tkl where r: "r = (h, tkl)"
    by (cases r)
  have "\<not> malformed_header e" if "pdu_from b = Inl e" for e
  proof (cases "parse_options b (4 + tkl) 0 []")
    case (Inl e')
    with that Inr r show ?thesis
      by (auto simp: pdu_from_unfold malformed_header_def split: if_splits
               dest: parse_options_not_header)
  next
    case (Inr x)
    with that \<open>parse_header b = Inr r\<close> r show ?thesis
      by (cases x) (auto simp: pdu_from_unfold malformed_header_def split: if_splits)
  qed
  with Inr show ?thesis
    by auto
qed

lemma pdu_from_header_fields:
  assumes "pdu_from b = Inr m"
  shows "\<exists>h tkl. parse_header b = Inr (h, tkl) \<and> version m = version h \<and> type m = type h
           \<and> code m = code h \<and> message_id m = message_id h \<and> length (token m) = tkl
           \<and> token m = take tkl (drop 4 b) \<and> 4 + tkl \<le> length b"
proof (cases "parse_header b")
  case (Inl e)
  with assms show ?thesis
    by (simp add: pdu_from_def)
next
  case (Inr r)
  obtain h tkl where r: "r = (h, tkl)"
    by (cases r)
  show ?thesis
  proof (cases "parse_options b (4 + tkl) 0 []")
    case (Inl e')
    with assms \<open>parse_header b = Inr r\<close> r show ?thesis
      by (auto simp: pdu_from_unfold split: if_splits)
  next
    case inr: (Inr x)
    with assms \<open>parse_header b = Inr r\<close> r show ?thesis
      by (cases x) (auto simp: pdu_from_unfold split: if_splits)
  qed
qed

section \<open>What \<open>to_bytes\<close> stores\<close>

lemmas word_nat_cmp = word_le_nat_alt word_less_nat_alt

lemma get_size_cases:
  "v < 13 \<Longrightarrow> get_size v = 0"
  "13 \<le> v \<Longrightarrow> v < 269 \<Longrightarrow> get_size v = 1"
  "269 \<le> v \<Longrightarrow> get_size v = 2"
  by (auto simp: get_size_def word_nat_cmp)

lemma get_nibble_cases:
  "v < 13 \<Longrightarrow> get_nibble v = ucast v"
  "13 \<le> v \<Longrightarrow> v < 269 \<Longrightarrow> get_nibble v = 13"
  "269 \<le> v \<Longrightarrow> get_nibble v = 14"
  by (auto simp: get_nibble_def word_nat_cmp)

lemma ext_bytes_cases:
  "v < 13 \<Longrightarrow> ext_bytes v = []"
  "13 \<le> v \<Longrightarrow> v < 269 \<Longrightarrow> ext_bytes v = [ucast (v - 13)]"
  "269 \<le> v \<Longrightarrow> ext_bytes v = [ucast (drop_bit 8 (v - 269)), ucast (v - 269)]"
  by (auto simp: ext_bytes_def word_nat_cmp)

lemma ucast_small_less_13: "v < 13 \<Longrightarrow> (ucast (v :: 32 word) :: byte) < 13"
  by (simp add: word_nat_cmp unat_low_byte32)

lemma get_nibble_le_14: "get_nibble v \<le> 14"
  using ucast_small_less_13 [of v] by (auto simp: get_nibble_def word_nat_cmp)

lemma assert_range: "269 \<le> (v :: 32 word) \<Longrightarrow> v - 269 \<le> 0xFFFF \<longleftrightarrow> v \<le> 65804"
proof -
  assume a: "269 \<le> v"
  then have "unat (v - 269) = unat v - 269"
    by (simp add: unat_sub word_nat_cmp)
  with a show ?thesis
    unfolding word_nat_cmp by simp arith
qed

lemma value_ranges: 
  "(v :: 32 word) < 13 \<or> (13 \<le> v \<and> v < 269) \<or> 269 \<le> v"
  by (auto simp: word_nat_cmp)

lemma store_append:
  "store (pre @ x # post) (length pre) b = Inr (pre @ b # post)"
  by (simp add: store_def)

lemma copy_append:
  "length zs = length xs \<Longrightarrow> copy xs (pre @ zs @ post) (length pre) = Inr (pre @ xs @ post)"
proof (induction xs arbitrary: pre zs)
  case Nil
  then show ?case by simp
next
  case (Cons x xs)
  then obtain z zs' where zs: "zs = z # zs'" and len: "length zs' = length xs"
    by (cases zs) auto
  have "copy xs ((pre @ [x]) @ zs' @ post) (length (pre @ [x])) = Inr ((pre @ [x]) @ xs @ post)"
    using len by (rule Cons.IH)
  then show ?case
    by (simp add: zs store_append)
qed

lemma take_drop_append: "take n xs @ drop n xs @ ys = xs @ ys"
  using append_take_drop_id [of n xs] by (metis append_assoc)

lemma length_ext_bytes: "length (ext_bytes v) = get_size v"
  by (simp add: ext_bytes_def get_size_def)

lemma encode_val_append:
  assumes "v \<le> 65804" and "length zs = get_size v"
  shows "encode_val (get_nibble v) v (pre @ d # zs @ post) (length pre)
           = Inr (pre @ d # ext_bytes v @ post, length pre + get_size v)"
proof -
  consider (small) "v < 13" | (one) "13 \<le> v" "v < 269" | (two) "269 \<le> v"
    using value_ranges [of v] by blast
  then show ?thesis
  proof cases
    case small
    with assms have "zs = []"
      by (simp add: get_size_cases)
    with small show ?thesis
      by (simp add: encode_val_def get_nibble_cases ucast_small_less_13 ext_bytes_cases get_size_cases)
  next
    case one
    with assms obtain z where zs: "zs = [z]"
      by (cases zs) (auto simp: get_size_cases)
    show ?thesis
      using store_append [of "pre @ [d]" z post]
      by (simp add: encode_val_def zs get_nibble_cases ext_bytes_cases get_size_cases one)
  next
    case two
    with assms obtain z1 z2 where zs: "zs = [z1, z2]"
      by (cases zs; cases "tl zs") (auto simp: get_size_cases)
    have a: "v - 269 \<le> 0xFFFF"
      using assms(1) two by (simp add: assert_range)
    show ?thesis
      using store_append [of "pre @ [d]" z1 "z2 # post"]
        store_append [of "pre @ [d, ucast (drop_bit 8 (v - 269))]" z2 post]
      by (simp add: encode_val_def zs get_nibble_cases ext_bytes_cases get_size_cases two a Let_def)
  qed
qed

lemma encode_val_abort:
  assumes "\<not> v \<le> 65804"
  shows "encode_val (get_nibble v) v bytes it = Inl AssertFailed"
proof -
  from assms have two: "269 \<le> v"
    by (simp add: word_nat_cmp)
  have a: "\<not> v - 269 \<le> 0xFFFF"
    using assms two by (simp add: assert_range)
  show ?thesis
    by (simp add: encode_val_def get_nibble_cases two a Let_def)
qed

lemma uint_small: "unat (a :: 32 word) < 2 ^ 31 \<Longrightarrow> uint a < 2 ^ 31"
proof -
  assume "unat a < 2 ^ 31"
  then have "int (unat a) < int (2 ^ 31)"
    by (simp only: of_nat_less_iff)
  then show ?thesis
    by (simp only: uint_nat) simp
qed

lemma sint_small: "unat (a :: 32 word) < 2 ^ 31 \<Longrightarrow> sint a = uint a"
proof -
  assume "unat a < 2 ^ 31"
  then have "uint a < 2 ^ 31"
    by (rule uint_small)
  moreover have "- (2 ^ 31) \<le> (0 :: int)"
    by simp
  then have "- (2 ^ 31) \<le> uint a"
    using uint_ge_0 [of a] by (rule order_trans)
  ultimately have "signed_take_bit 31 (uint a) = uint a"
    by (rule signed_take_bit_int_eq_self [rotated])
  then show ?thesis
    by (simp add: sint_uint)
qed

lemma unat_add_small:
  "unat (a :: 32 word) + unat b < 2 ^ 31 \<Longrightarrow> unat (a + b) = unat a + unat b"
  by (simp add: unat_word_ariths)

lemma unat_of_nat_small: "n < 2 ^ 31 \<Longrightarrow> unat (of_nat n :: 32 word) = n"
  by (simp add: unat_of_nat)

lemma add_int_small:
  assumes "unat a + unat b < 2 ^ 31"
  shows "add_int a b = Inr (a + b)"
proof -
  have a: "sint a = uint a" and b: "sint b = uint b"
    using assms by (simp_all add: sint_small)
  from assms have "int (unat a + unat b) < int (2 ^ 31)"
    by (simp only: of_nat_less_iff)
  then have hi: "uint a + uint b < 2 ^ 31"
    by (simp only: uint_nat of_nat_add) simp
  have "- (2 ^ 31) \<le> (0 :: int)"
    by simp
  also have "0 \<le> uint a + uint b"
    by simp
  finally have lo: "- (2 ^ 31) \<le> uint a + uint b" .
  show ?thesis
    unfolding add_int_def a b using lo hi by (simp only: simp_thms if_True)
qed

lemma add_size_small:
  assumes "unat a + n < 2 ^ 31"
  shows "unat (add_size a n) = unat a + n"
  using assms by (simp add: add_size_def unat_add_small unat_of_nat_small)

lemma get_size_le_2: "get_size v \<le> 2"
  by (simp add: get_size_def)

lemma size_options_eq:
  "unat r + length (options_bytes prev opts) < 2 ^ 31 \<Longrightarrow>
   \<exists>n. size_options opts prev r = Inr n \<and> unat n = unat r + length (options_bytes prev opts)"
proof (induction opts arbitrary: prev r)
  case Nil
  then show ?case by simp
next
  case (Cons opt rest)
  let ?d = "get_size (number opt - prev)" and ?l = "get_size (size32 (opt_value opt))"
  let ?v = "length (opt_value opt)"
  let ?rest = "length (options_bytes (number opt) rest)"
  from Cons.prems have bound: "unat r + (1 + ?d + ?l + ?v + ?rest) < 2 ^ 31"
    by (simp add: option_bytes_def length_ext_bytes)
  have ud: "unat (of_nat ?d :: 32 word) = ?d" and ul: "unat (of_nat ?l :: 32 word) = ?l"
    by (rule unat_of_nat_small, simp add: get_size_def)+
  define r1 where "r1 = r + 1"
  define r2 where "r2 = r1 + of_nat ?d"
  define r3 where "r3 = r2 + of_nat ?l"
  define r4 where "r4 = add_size r3 ?v"
  have a1: "add_int r 1 = Inr r1" and u1: "unat r1 = unat r + 1"
    using bound by (simp_all add: r1_def add_int_small unat_add_small)
  have a2: "add_int r1 (of_nat ?d) = Inr r2" and u2: "unat r2 = unat r + 1 + ?d"
    using bound u1 ud by (simp_all add: r2_def add_int_small unat_add_small)
  have a3: "add_int r2 (of_nat ?l) = Inr r3" and u3: "unat r3 = unat r + 1 + ?d + ?l"
    using bound u2 ul by (simp_all add: r3_def add_int_small unat_add_small)
  have u4: "unat r4 = unat r + 1 + ?d + ?l + ?v"
    using bound u3 by (simp add: r4_def add_size_small)
  have "unat r4 + ?rest < 2 ^ 31"
    using bound u4 by simp
  from Cons.IH [OF this] obtain n where
    n: "size_options rest (number opt) r4 = Inr n" and un: "unat n = unat r4 + ?rest"
    by blast
  have "size_options (opt # rest) prev r = Inr n"
    by (simp add: a1 a2 a3 n Let_def r4_def [symmetric])
  moreover have "unat n = unat r + length (options_bytes prev (opt # rest))"
    using un u4 by (simp add: option_bytes_def length_ext_bytes)
  ultimately show ?case by blast
qed

lemma vector_of_size_small:
  assumes "unat n < 2 ^ 31"
  shows "vector_of_size n = Inr (replicate (unat n) 0)"
proof -
  have s: "sint n = uint n"
    using assms by (rule sint_small)
  have "\<not> uint n < 0"
    by simp
  then show ?thesis
    unfolding vector_of_size_def s unat_eq_nat_uint by (simp only: if_False)
qed

lemma store_in_range: "i < length bytes \<Longrightarrow> store bytes i b = Inr (bytes[i := b])"
  by (simp add: store_def)

lemma write_option_frame:
  assumes "number opt - prev \<le> 65804" and "size32 (opt_value opt) \<le> 65804"
    and "length zs = length (option_bytes prev opt)"
  shows "\<exists>z zd zl zv. zs = z # zd @ zl @ zv \<and> length zd = get_size (number opt - prev)
           \<and> length zl = get_size (size32 (opt_value opt)) \<and> length zv = length (opt_value opt)"
proof -
  let ?d = "get_size (number opt - prev)" and ?l = "get_size (size32 (opt_value opt))"
  from assms(3) have len: "length zs = Suc (?d + ?l + length (opt_value opt))"
    by (simp add: option_bytes_def length_ext_bytes)
  then obtain z r where zs: "zs = z # r"
    by (cases zs) auto
  have "r = take ?d r @ take ?l (drop ?d r) @ drop ?l (drop ?d r)"
    by (simp only: append_take_drop_id)
  moreover have "length (take ?d r) = ?d" "length (take ?l (drop ?d r)) = ?l"
    "length (drop ?l (drop ?d r)) = length (opt_value opt)"
    using len zs by auto
  ultimately show ?thesis
    using zs by blast
qed


lemma write_option_append:
  assumes "number opt - prev \<le> 65804" and "size32 (opt_value opt) \<le> 65804"
    and "length zs = length (option_bytes prev opt)"
  shows "write_options (opt # rest) prev (pre @ zs @ post) (length pre)
           = write_options rest (number opt) (pre @ option_bytes prev opt @ post)
               (length pre + length (option_bytes prev opt))"
proof -
  let ?d = "number opt - prev" and ?l = "size32 (opt_value opt)"
  let ?b = "push_bit 4 (get_nibble ?d) OR get_nibble ?l"
  from write_option_frame [OF assms]
  obtain z zd zl zv where zs: "zs = z # zd @ zl @ zv" and zd: "length zd = get_size ?d"
    and zl: "length zl = get_size ?l" and zv: "length zv = length (opt_value opt)"
    by blast
  have 1: "store (pre @ zs @ post) (length pre) ?b = Inr (pre @ ?b # zd @ zl @ zv @ post)"
    using store_append [of pre z "zd @ zl @ zv @ post" ?b] by (simp add: zs)
  have 2: "encode_val (get_nibble ?d) ?d (pre @ ?b # zd @ zl @ zv @ post) (length pre)
             = Inr (pre @ ?b # ext_bytes ?d @ zl @ zv @ post, length pre + get_size ?d)"
    using encode_val_append [OF assms(1) zd, of pre ?b "zl @ zv @ post"] by simp
  have 3: "encode_val (get_nibble ?l) ?l (pre @ ?b # ext_bytes ?d @ zl @ zv @ post)
               (length pre + get_size ?d)
             = Inr (pre @ ?b # ext_bytes ?d @ ext_bytes ?l @ zv @ post,
                    length pre + get_size ?d + get_size ?l)"
  proof (cases "ext_bytes ?d" rule: rev_cases)
    case Nil
    then have "get_size ?d = 0"
      using length_ext_bytes [of ?d] by simp
    with Nil show ?thesis
      using encode_val_append [OF assms(2) zl, of pre ?b "zv @ post"] by simp
  next
    case (snoc ys y)
    then have "get_size ?d = Suc (length ys)"
      using length_ext_bytes [of ?d] by simp
    with snoc show ?thesis
      using encode_val_append [OF assms(2) zl, of "pre @ ?b # ys" y "zv @ post"] by simp
  qed
  have 4: "copy (opt_value opt) (pre @ ?b # ext_bytes ?d @ ext_bytes ?l @ zv @ post)
               (length pre + get_size ?d + get_size ?l + 1)
             = Inr (pre @ ?b # ext_bytes ?d @ ext_bytes ?l @ opt_value opt @ post)"
    using copy_append [OF zv, of "pre @ ?b # ext_bytes ?d @ ext_bytes ?l" post]
    by (simp add: length_ext_bytes ac_simps)
  have 5: "length pre + get_size ?d + get_size ?l + 1 + length (opt_value opt)
             = length pre + length (option_bytes prev opt)"
    by (simp add: option_bytes_def length_ext_bytes)
  have 6: "pre @ ?b # ext_bytes ?d @ ext_bytes ?l @ opt_value opt @ post
             = pre @ option_bytes prev opt @ post"
    by (simp add: option_bytes_def)
  show ?thesis
    unfolding write_options.simps Let_def 1 sum.case 2 prod.case 3 4 5 6 ..
qed

lemma write_options_append:
  "options_encodable prev opts \<Longrightarrow> length zs = length (options_bytes prev opts) \<Longrightarrow>
     write_options opts prev (pre @ zs @ post) (length pre)
       = Inr (pre @ options_bytes prev opts @ post, length pre + length (options_bytes prev opts))"
proof (induction opts arbitrary: prev zs pre)
  case Nil
  then show ?case by simp
next
  case (Cons opt rest)
  let ?ob = "option_bytes prev opt"
  from Cons.prems have enc: "number opt - prev \<le> 65804" "size32 (opt_value opt) \<le> 65804"
    "options_encodable (number opt) rest"
    by simp_all
  from Cons.prems(2) have len: "length zs = length ?ob + length (options_bytes (number opt) rest)"
    by simp
  obtain zs1 zs2 where zs: "zs = zs1 @ zs2" and l1: "length zs1 = length ?ob"
    and l2: "length zs2 = length (options_bytes (number opt) rest)"
  proof
    show "zs = take (length ?ob) zs @ drop (length ?ob) zs"
      by simp
    show "length (take (length ?ob) zs) = length ?ob"
      "length (drop (length ?ob) zs) = length (options_bytes (number opt) rest)"
      using len by simp_all
  qed
  have "write_options (opt # rest) prev (pre @ zs1 @ (zs2 @ post)) (length pre)
          = write_options rest (number opt) (pre @ ?ob @ (zs2 @ post)) (length pre + length ?ob)"
    using enc(1,2) l1 by (rule write_option_append)
  moreover have "write_options rest (number opt) ((pre @ ?ob) @ zs2 @ post) (length (pre @ ?ob))
          = Inr ((pre @ ?ob) @ options_bytes (number opt) rest @ post,
                 length (pre @ ?ob) + length (options_bytes (number opt) rest))"
    using enc(3) l2 by (rule Cons.IH)
  ultimately show ?case
    by (simp add: zs add.assoc del: write_options.simps)
qed


lemma write_options_abort:
  "\<not> options_encodable prev opts \<Longrightarrow> length zs = length (options_bytes prev opts) \<Longrightarrow>
     write_options opts prev (pre @ zs @ post) (length pre) = Inl AssertFailed"
proof (induction opts arbitrary: prev zs pre)
  case Nil
  then show ?case by simp
next
  case (Cons opt rest)
  let ?ob = "option_bytes prev opt"
  let ?d = "number opt - prev" and ?l = "size32 (opt_value opt)"
  let ?b = "push_bit 4 (get_nibble ?d) OR get_nibble ?l"
  from Cons.prems(2) have len: "length zs = length ?ob + length (options_bytes (number opt) rest)"
    by simp
  obtain zs1 zs2 where zs: "zs = zs1 @ zs2" and l1: "length zs1 = length ?ob"
    and l2: "length zs2 = length (options_bytes (number opt) rest)"
  proof
    show "zs = take (length ?ob) zs @ drop (length ?ob) zs"
      by simp
    show "length (take (length ?ob) zs) = length ?ob"
      "length (drop (length ?ob) zs) = length (options_bytes (number opt) rest)"
      using len by simp_all
  qed
  from l1 obtain z zr where zs1: "zs1 = z # zr"
    and zr: "length zr = get_size ?d + get_size ?l + length (opt_value opt)"
    by (cases zs1) (auto simp: option_bytes_def length_ext_bytes)
  have 1: "store (pre @ zs @ post) (length pre) ?b = Inr (pre @ ?b # zr @ zs2 @ post)"
    using store_append [of pre z "zr @ zs2 @ post" ?b] by (simp add: zs zs1)
  show ?case
  proof (cases "?d \<le> 65804")
    case False
    then show ?thesis
      unfolding write_options.simps Let_def 1 sum.case
      by (simp add: encode_val_abort)
  next
    case d: True
    show ?thesis
    proof (cases "?l \<le> 65804")
      case False
      have zr': "zr = take (get_size ?d) zr @ drop (get_size ?d) zr"
        by simp
      have 2: "encode_val (get_nibble ?d) ?d (pre @ ?b # zr @ zs2 @ post) (length pre)
             = Inr (pre @ ?b # ext_bytes ?d @ drop (get_size ?d) zr @ zs2 @ post,
                    length pre + get_size ?d)"
        using encode_val_append [OF d, of "take (get_size ?d) zr" pre ?b
            "drop (get_size ?d) zr @ zs2 @ post"] zr
        by (simp add: take_drop_append)
      show ?thesis
        unfolding write_options.simps Let_def 1 sum.case 2 prod.case
        by (simp add: encode_val_abort [OF False])
    next
      case l: True
      with d Cons.prems(1) have rest: "\<not> options_encodable (number opt) rest"
        by simp
      have "write_options (opt # rest) prev (pre @ zs1 @ (zs2 @ post)) (length pre)
          = write_options rest (number opt) (pre @ ?ob @ (zs2 @ post)) (length pre + length ?ob)"
        using d l l1 by (rule write_option_append)
      moreover have "write_options rest (number opt) ((pre @ ?ob) @ zs2 @ post) (length (pre @ ?ob))
          = Inl AssertFailed"
        using rest l2 by (rule Cons.IH)
      ultimately show ?thesis
        by (simp add: zs del: write_options.simps)
    qed
  qed
qed

lemma store_header:
  "(case store (replicate (4 + k) 0) 0 a of
      Inl e \<Rightarrow> Inl e
    | Inr bytes \<Rightarrow>
        (case store bytes 1 b of
           Inl e \<Rightarrow> Inl e
         | Inr bytes \<Rightarrow>
             (case store bytes 2 c of
                Inl e \<Rightarrow> Inl e
              | Inr bytes \<Rightarrow>
                  (case store bytes 3 d of
                     Inl e \<Rightarrow> Inl e
                   | Inr bytes \<Rightarrow> f bytes))))
   = f ([a, b, c, d] @ replicate k 0)"
  by (simp add: store_def numeral_eq_Suc)

lemma length_header_bytes: "length (header_bytes p) = 4"
  by (simp add: header_bytes_def)

lemma to_bytes_eq:
  assumes "length (wire_bytes p) < 2 ^ 31"
  shows "to_bytes p =
     (if options_encodable 0 (options p)
      then Inr (wire_bytes p)
      else Inl AssertFailed)"
proof -
  let ?ob = "options_bytes 0 (options p)"
  let ?pb = "payload_bytes (payload p)"
  define hd where "hd = header_bytes p"
  define zo where "zo = replicate (length ?ob) (0 :: byte)"
  define zp where "zp = replicate (length ?pb) (0 :: byte)"
  define k where "k = length (token p) + (length ?ob + length ?pb)"
  have lhd: "length hd = 4"
    by (simp add: hd_def length_header_bytes)
  have lzo: "length zo = length ?ob" and lzp: "length zp = length ?pb"
    by (simp_all add: zo_def zp_def)
  from assms have bound: "4 + k < 2 ^ 31"
    by (simp add: wire_bytes_def length_header_bytes k_def)
  let ?n0 = "if length (payload p) \<noteq> 0
             then add_size (add_size 4 (length (token p))) (1 + length (payload p))
             else add_size 4 (length (token p))"
  have u4: "unat (4 :: 32 word) = 4"
    by simp
  have ut: "unat (add_size 4 (length (token p))) = 4 + length (token p)"
    using bound add_size_small [of 4 "length (token p)"] by (simp add: k_def)
  have u0: "unat ?n0 = 4 + length (token p) + length ?pb"
  proof (cases "payload p = []")
    case True
    then show ?thesis
      by (simp add: ut payload_bytes_def)
  next
    case False
    have "unat (add_size (add_size 4 (length (token p))) (1 + length (payload p)))
            = 4 + length (token p) + (1 + length (payload p))"
      unfolding ut [symmetric]
      by (rule add_size_small) (use bound False in \<open>simp add: ut k_def payload_bytes_def\<close>)
    with False show ?thesis
      by (simp add: payload_bytes_def)
  qed
  have "unat ?n0 + length (options_bytes 0 (options p)) < 2 ^ 31"
    unfolding u0 using bound by (simp add: k_def)
  from size_options_eq [OF this] obtain n where
    n: "size_options (options p) 0 ?n0 = Inr n" and "unat n = unat ?n0 + length ?ob"
    by blast
  then have un: "unat n = 4 + k"
    unfolding u0 by (simp add: k_def)
  have vec: "vector_of_size n = Inr (replicate (4 + k) 0)"
    using vector_of_size_small [of n] bound by (simp add: un)
  have buf: "[push_bit 6 (version p) OR push_bit 4 (type p) OR of_nat (length (token p)),
              code p, ucast (drop_bit 8 (message_id p)), ucast (message_id p)] @ replicate k 0
             = hd @ replicate (length (token p)) 0 @ zo @ zp"
    by (simp add: hd_def zo_def zp_def k_def header_bytes_def replicate_add)
  have tok: "copy (token p) (hd @ replicate (length (token p)) 0 @ zo @ zp) 4
             = Inr (hd @ token p @ zo @ zp)"
    using copy_append [of "replicate (length (token p)) 0" "token p" hd "zo @ zp"]
    by (simp add: lhd)
  have start: "to_bytes p =
      (case write_options (options p) 0 (hd @ token p @ zo @ zp) (4 + length (token p)) of
         Inl e \<Rightarrow> Inl e
       | Inr (bytes, it) \<Rightarrow>
           if length (payload p) \<noteq> 0 then
             (case store bytes it 0xFF of
                Inl e \<Rightarrow> Inl e
              | Inr bytes \<Rightarrow> copy (payload p) bytes (it + 1))
           else Inr bytes)"
    unfolding to_bytes_def Let_def n sum.case vec store_header buf tok ..
  have "to_bytes p =
     (if options_encodable 0 (options p) then Inr (hd @ token p @ ?ob @ ?pb)
      else Inl AssertFailed)"
  proof (cases "options_encodable 0 (options p)")
    case False
    have "write_options (options p) 0 ((hd @ token p) @ zo @ zp) (length (hd @ token p))
            = Inl AssertFailed"
      using False lzo by (rule write_options_abort)
    then show ?thesis
      using False by (simp add: start lhd)
  next
    case True
    have "write_options (options p) 0 ((hd @ token p) @ zo @ zp) (length (hd @ token p))
          = Inr ((hd @ token p) @ ?ob @ zp, length (hd @ token p) + length ?ob)"
      using True lzo by (rule write_options_append)
    then have w: "write_options (options p) 0 (hd @ token p @ zo @ zp) (4 + length (token p))
          = Inr (hd @ token p @ ?ob @ zp, 4 + length (token p) + length ?ob)"
      by (simp add: lhd)
    show ?thesis
    proof (cases "payload p = []")
      case e: True
      then have zp0: "zp = []"
        by (simp add: zp_def payload_bytes_def)
      from e True show ?thesis
        using w by (simp add: start zp0 payload_bytes_def)
    next
      case ne: False
      then obtain z zr where zp: "zp = z # zr" and zr: "length zr = length (payload p)"
        using lzp by (cases zp) (auto simp: payload_bytes_def)
      have w': "write_options (options p) 0 (hd @ token p @ zo @ z # zr) (4 + length (token p))
          = Inr (hd @ token p @ ?ob @ z # zr, 4 + length (token p) + length ?ob)"
        using w by (simp add: zp)
      have s: "store (hd @ token p @ ?ob @ z # zr) (4 + length (token p) + length ?ob) 0xFF
                 = Inr (hd @ token p @ ?ob @ 0xFF # zr)"
        using store_append [of "hd @ token p @ ?ob" z zr "0xFF"] by (simp add: lhd add.assoc)
      have c: "copy (payload p) (hd @ token p @ ?ob @ 0xFF # zr)
                  (4 + length (token p) + length ?ob + 1)
                 = Inr (hd @ token p @ ?ob @ 0xFF # payload p)"
        using copy_append [of zr "payload p" "hd @ token p @ ?ob @ [0xFF]" "[]"] zr by (simp add: lhd add.assoc)
      have "to_bytes p = Inr (hd @ token p @ ?ob @ 0xFF # payload p)"
        unfolding start zp w' sum.case prod.case s c using ne by simp
      with ne True show ?thesis
        by (simp add: payload_bytes_def)
    qed
  qed
  then show ?thesis
    by (simp add: hd_def wire_bytes_def)
qed

text \<open>
  Without the bound the size wraps around: with an empty token, no option and a payload
  of \<open>2 ^ 31 - 5\<close> bytes, \<^verbatim>\<open>required_size\<close> is the smallest \<^verbatim>\<open>int\<close>, and the constructor of the
  vector throws.
\<close>

lemma to_bytes_length_error:
  assumes "token p = []" and "options p = []" and "length (payload p) = 2 ^ 31 - 5"
  shows "to_bytes p = Inl LengthError"
proof -
  have "add_size (add_size 4 0) (1 + (2 ^ 31 - 5)) = (0x80000000 :: 32 word)"
    by (simp add: add_size_def)
  moreover have "sint (0x80000000 :: 32 word) < 0"
    by simp
  ultimately show ?thesis
    using assms by (simp add: to_bytes_def vector_of_size_def)
qed

section \<open>Decoding what was encoded\<close>

lemma ucast_byte_roundtrip: "x < 256 \<Longrightarrow> ucast (ucast (x :: 32 word) :: byte) = x"
  by (simp add: word_unat_eq_iff unat_ucast_byte32 unat_low_byte32 word_nat_cmp)

lemma be16_roundtrip:
  "x \<le> 0xFFFF \<Longrightarrow>
     push_bit 8 (ucast (ucast (drop_bit 8 x) :: byte)) OR ucast (ucast x :: byte) = (x :: 32 word)"
proof -
  assume "x \<le> 0xFFFF"
  then have "unat (ucast (drop_bit 8 x) :: byte) = unat x div 256"
    by (rule unat_high_byte32)
  moreover have "unat (ucast x :: byte) = unat x mod 256"
    by (rule unat_low_byte32)
  ultimately have "unat (push_bit 8 (ucast (ucast (drop_bit 8 x) :: byte)) OR ucast (ucast x :: byte) :: 32 word)
      = unat x"
    by (simp only: unat_big_endian32 mult_div_mod_eq)
  then show ?thesis
    by (simp only: word_unat_eq_iff)
qed

lemma parse_value_encoded:
  assumes "v \<le> 65804"
  shows "parse_value (pre @ d # ext_bytes v @ post) (length pre) (ucast (get_nibble v))
           = Inr (v, length pre + get_size v)"
proof -
  consider (small) "v < 13" | (one) "13 \<le> v" "v < 269" | (two) "269 \<le> v"
    using value_ranges [of v] by blast
  then show ?thesis
  proof cases
    case small
    then have "ucast (get_nibble v) = v"
      by (simp add: get_nibble_cases ucast_byte_roundtrip word_nat_cmp)
    moreover from small have "v \<noteq> 13" "v \<noteq> 14" "v \<noteq> 15"
      by (auto simp: word_nat_cmp)
    ultimately show ?thesis
      using small by (simp add: parse_value_def get_size_cases)
  next
    case one
    then have "v - 13 < 256"
      by (simp add: word_nat_cmp unat_sub)
    then have "13 + ucast (ucast (v - 13) :: byte) = v"
      by (simp add: ucast_byte_roundtrip)
    with one show ?thesis
      by (simp add: parse_value_def get_nibble_cases ext_bytes_cases get_size_cases deref_def nth_append)
  next
    case two
    with assms have "v - 269 \<le> 0xFFFF"
      by (simp add: assert_range)
    then have "269 + (push_bit 8 (ucast (ucast (drop_bit 8 (v - 269)) :: byte))
                 OR ucast (ucast (v - 269) :: byte)) = v"
      by (simp add: be16_roundtrip)
    with two show ?thesis
      by (simp add: parse_value_def get_nibble_cases ext_bytes_cases get_size_cases deref_def nth_append)
  qed
qed

lemma nibble_take_bit: "n \<le> (14 :: byte) \<Longrightarrow> take_bit 4 n = n"
proof -
  assume "n \<le> 14"
  then have "unat n < 16"
    by (simp add: word_nat_cmp)
  then have "unat (take_bit 4 n) = unat n"
    unfolding unsigned_take_bit_eq by (simp add: take_bit_nat_eq_self)
  then show ?thesis
    by (simp only: word_unat_eq_iff)
qed

lemma descriptor_high: "ln \<le> (14 :: byte) \<Longrightarrow> dn \<le> 14 \<Longrightarrow> drop_bit 4 (push_bit 4 dn OR ln) = dn"
proof -
  assume "ln \<le> 14" "dn \<le> 14"
  then have l: "take_bit 4 ln = ln" and d: "take_bit 4 dn = dn"
    by (simp_all add: nibble_take_bit)
  have "drop_bit 4 (push_bit 4 (take_bit 4 dn) OR take_bit 4 ln) = take_bit 4 dn"
    by (rule bit_word_eqI) (auto simp: bit_simps)
  then show ?thesis
    by (simp only: l d)
qed

lemma descriptor_low: "ln \<le> (14 :: byte) \<Longrightarrow> (push_bit 4 dn OR ln) AND 0x0F = ln"
proof -
  assume "ln \<le> 14"
  then have l: "take_bit 4 ln = ln"
    by (simp_all add: nibble_take_bit)
  have "take_bit 4 (push_bit 4 dn OR take_bit 4 ln) = take_bit 4 ln"
    by (rule bit_word_eqI) (auto simp: bit_simps)
  then show ?thesis
    by (simp only: l low_nibble_bits)
qed

lemma descriptor_not_sentinel: "ln \<le> (14 :: byte) \<Longrightarrow> push_bit 4 dn OR ln \<noteq> 0xFF"
proof
  assume "ln \<le> 14" and "push_bit 4 dn OR ln = 0xFF"
  then have "(push_bit 4 dn OR ln) AND 0x0F = 0xFF AND 0x0F"
    by simp
  with \<open>ln \<le> 14\<close> have "ln = 0x0F"
    by (simp add: descriptor_low)
  with \<open>ln \<le> 14\<close> show False
    by simp
qed

lemma descriptor_split: "push_bit 4 (drop_bit 4 d) OR (d AND 0x0F) = (d :: byte)"
  unfolding low_nibble_bits
  by (rule bit_word_eqI) (auto simp: bit_simps)

lemma unat_size32: "length v \<le> 65804 \<Longrightarrow> unat (size32 v) = length v"
  by (simp add: size32_def unat_of_nat)

lemma size32_le: "length v \<le> 65804 \<Longrightarrow> size32 v \<le> 65804"
  by (simp add: word_nat_cmp unat_size32)

lemma options_representable_encodable:
  "options_representable prev opts \<Longrightarrow> options_encodable prev opts"
  by (induction opts arbitrary: prev) (simp_all add: size32_le)

lemma parse_option_encoded:
  assumes d: "number opt - prev \<le> 65804" and l: "length (opt_value opt) \<le> 65804"
  shows "parse_option (pre @ option_bytes prev opt @ post) (length pre) prev
           = Inr (opt, length pre + length (option_bytes prev opt))"
proof -
  let ?d = "number opt - prev" and ?l = "size32 (opt_value opt)"
  let ?b = "push_bit 4 (get_nibble ?d) OR get_nibble ?l"
  let ?bytes = "pre @ option_bytes prev opt @ post"
  have l32: "?l \<le> 65804" and ul: "unat ?l = length (opt_value opt)"
    using l by (simp_all add: size32_le unat_size32)
  have bytes: "?bytes = pre @ ?b # ext_bytes ?d @ ext_bytes ?l @ opt_value opt @ post"
    by (simp add: option_bytes_def)
  have at: "?bytes ! length pre = ?b"
    by (simp add: bytes)
  have hi: "drop_bit 4 ?b = get_nibble ?d" and lo: "?b AND 0x0F = get_nibble ?l"
    by (simp_all only: descriptor_high descriptor_low get_nibble_le_14)
  have 1: "parse_value ?bytes (length pre) (ucast (get_nibble ?d))
             = Inr (?d, length pre + get_size ?d)"
    unfolding bytes by (rule parse_value_encoded [OF d])
  have 2: "parse_value ?bytes (length pre + get_size ?d) (ucast (get_nibble ?l))
             = Inr (?l, length pre + get_size ?d + get_size ?l)"
  proof (cases "ext_bytes ?d" rule: rev_cases)
    case Nil
    then have "get_size ?d = 0"
      using length_ext_bytes [of ?d] by simp
    with Nil show ?thesis
      using parse_value_encoded [OF l32, of pre ?b "opt_value opt @ post"] by (simp add: bytes)
  next
    case (snoc ys y)
    then have "get_size ?d = Suc (length ys)"
      using length_ext_bytes [of ?d] by simp
    with snoc show ?thesis
      using parse_value_encoded [OF l32, of "pre @ ?b # ys" y "opt_value opt @ post"]
      by (simp add: bytes)
  qed
  have len: "length (option_bytes prev opt) = 1 + get_size ?d + get_size ?l + length (opt_value opt)"
    by (simp add: option_bytes_def length_ext_bytes)
  have val: "take (length (opt_value opt)) (drop (length pre + get_size ?d + get_size ?l + 1) ?bytes)
              = opt_value opt"
    unfolding bytes
    using length_ext_bytes [of ?d] length_ext_bytes [of ?l]
    by (simp add: drop_append)
  have opt: "\<lparr>number = prev + ?d, opt_value = opt_value opt\<rparr> = opt"
    by simp
  show ?thesis
    unfolding parse_option_def at hi lo 1 2 sum.case prod.case Let_def ul val opt
    by (simp add: len)
qed

lemma option_bytes_descriptor:
  "\<exists>b bs. option_bytes prev opt = b # bs \<and> b \<noteq> 0xFF"
  by (simp add: option_bytes_def descriptor_not_sentinel get_nibble_le_14)

lemma parse_options_step:
  "it < length b \<Longrightarrow> b ! it \<noteq> 0xFF \<Longrightarrow> parse_option b it prev = Inr (opt, e) \<Longrightarrow>
     parse_options b it prev acc = parse_options b e (number opt) (acc @ [opt])"
  by (subst parse_options.simps) simp

lemma parse_options_fail:
  "it < length b \<Longrightarrow> b ! it \<noteq> 0xFF \<Longrightarrow> parse_option b it prev = Inl e \<Longrightarrow>
     parse_options b it prev acc = Inl e"
  by (subst parse_options.simps) simp

lemma parse_options_end:
  "\<not> (it < length b \<and> b ! it \<noteq> 0xFF) \<Longrightarrow> parse_options b it prev acc = Inr (acc, it)"
  by (subst parse_options.simps) auto

lemma parse_options_stop:
  "post = [] \<or> hd post = 0xFF \<Longrightarrow>
     parse_options (pre @ post) (length pre) prev acc = Inr (acc, length pre)"
  by (subst parse_options.simps) (cases post; simp)

lemma parse_options_encoded:
  "options_representable prev opts \<Longrightarrow> post = [] \<or> hd post = 0xFF \<Longrightarrow>
     parse_options (pre @ options_bytes prev opts @ post) (length pre) prev acc
       = Inr (acc @ opts, length pre + length (options_bytes prev opts))"
proof (induction opts arbitrary: pre prev acc)
  case Nil
  then show ?case
    by (simp add: parse_options_stop)
next
  case (Cons opt rest)
  let ?ob = "option_bytes prev opt"
  let ?tail = "options_bytes (number opt) rest @ post"
  from Cons.prems(1) have d: "number opt - prev \<le> 65804" and l: "length (opt_value opt) \<le> 65804"
    and r: "options_representable (number opt) rest"
    by simp_all
  obtain b bs where ob: "?ob = b # bs" and b: "b \<noteq> 0xFF"
    using option_bytes_descriptor by blast
  have enter: "length pre < length (pre @ ?ob @ ?tail)" "(pre @ ?ob @ ?tail) ! length pre \<noteq> 0xFF"
    by (simp_all add: ob b)
  have step: "parse_option (pre @ ?ob @ ?tail) (length pre) prev = Inr (opt, length pre + length ?ob)"
    using d l by (rule parse_option_encoded)
  have "parse_options ((pre @ ?ob) @ options_bytes (number opt) rest @ post) (length (pre @ ?ob))
          (number opt) (acc @ [opt])
        = Inr ((acc @ [opt]) @ rest, length (pre @ ?ob) + length (options_bytes (number opt) rest))"
    using r Cons.prems(2) by (rule Cons.IH)
  then have rec: "parse_options (pre @ ?ob @ ?tail) (length pre + length ?ob) (number opt) (acc @ [opt])
        = Inr (acc @ opt # rest, length pre + (length ?ob + length (options_bytes (number opt) rest)))"
    by (simp add: add.assoc)
  have "parse_options (pre @ ?ob @ ?tail) (length pre) prev acc
        = Inr (acc @ opt # rest, length pre + (length ?ob + length (options_bytes (number opt) rest)))"
    using parse_options_step [OF enter step, of acc] rec by simp
  then show ?case
    by simp
qed

lemma two_bit_take_bit: "n \<le> (3 :: byte) \<Longrightarrow> take_bit 2 n = n"
proof -
  assume "n \<le> 3"
  then have "unat n < 4"
    by (simp add: word_nat_cmp)
  then have "unat (take_bit 2 n) = unat n"
    unfolding unsigned_take_bit_eq by (simp add: take_bit_nat_eq_self)
  then show ?thesis
    by (simp only: word_unat_eq_iff)
qed

lemma token_length_byte:
  assumes "n \<le> 8"
  shows "unat (of_nat n :: byte) = n" and "take_bit 4 (of_nat n :: byte) = of_nat n"
    and "\<not> 8 < (of_nat n :: byte)"
proof -
  show u: "unat (of_nat n :: byte) = n"
    using assms by (simp add: unat_of_nat)
  then have "unat (take_bit 4 (of_nat n :: byte)) = unat (of_nat n :: byte)"
    unfolding unsigned_take_bit_eq using assms by (simp add: take_bit_nat_eq_self)
  then show "take_bit 4 (of_nat n :: byte) = of_nat n"
    by (simp only: word_unat_eq_iff)
  show "\<not> 8 < (of_nat n :: byte)"
    using assms by (simp add: word_nat_cmp u)
qed

lemma header_byte_fields:
  fixes ty tk :: byte
  defines "h \<equiv> push_bit 6 1 OR push_bit 4 (take_bit 2 ty) OR take_bit 4 tk"
  shows "drop_bit 6 h = 1" and "take_bit 2 (drop_bit 4 h) = take_bit 2 ty"
    and "take_bit 4 h = take_bit 4 tk"
  unfolding h_def
  by (rule bit_word_eqI; auto simp: bit_simps)+

lemma header_byte_split:
  "drop_bit 6 h = 1 \<Longrightarrow>
     push_bit 6 1 OR push_bit 4 (take_bit 2 (drop_bit 4 h)) OR take_bit 4 h = (h :: byte)"
proof -
  assume "drop_bit 6 h = 1"
  then have "push_bit 6 1 OR push_bit 4 (take_bit 2 (drop_bit 4 h)) OR take_bit 4 h
      = push_bit 6 (drop_bit 6 h) OR push_bit 4 (take_bit 2 (drop_bit 4 h)) OR take_bit 4 h"
    by simp
  also have "\<dots> = h"
  proof (rule bit_word_eqI)
    fix n
    assume "n < LENGTH(8)"
    consider "n < 4" | "4 \<le> n" "n < 6" | "6 \<le> n"
      by linarith
    then show "bit (push_bit 6 (drop_bit 6 h) OR push_bit 4 (take_bit 2 (drop_bit 4 h)) OR take_bit 4 h) n
        \<longleftrightarrow> bit h n"
      using \<open>n < LENGTH(8)\<close> by cases (auto simp: bit_simps dest: bit_imp_le_length)
  qed
  finally show ?thesis .
qed

lemma message_id_roundtrip:
  "push_bit 8 (ucast (ucast (drop_bit 8 mid) :: byte)) OR ucast (ucast mid :: byte) = (mid :: 16 word)"
proof -
  have h: "unat (ucast (drop_bit 8 mid) :: byte) = unat mid div 256"
    by (rule unat_high_byte16)
  have l: "unat (ucast mid :: byte) = unat mid mod 256"
    by (rule unat_low_byte16)
  have "unat (push_bit 8 (ucast (ucast (drop_bit 8 mid) :: byte)) OR ucast (ucast mid :: byte) :: 16 word)
      = unat mid"
    by (simp only: unat_big_endian16 h l mult_div_mod_eq)
  then show ?thesis
    by (simp only: word_unat_eq_iff)
qed

lemma message_id_bytes:
  "ucast (drop_bit 8 (push_bit 8 (ucast hi) OR ucast lo :: 16 word)) = (hi :: byte)"
  "ucast (push_bit 8 (ucast hi) OR ucast lo :: 16 word) = (lo :: byte)"
proof -
  let ?w = "push_bit 8 (ucast hi) OR ucast lo :: 16 word"
  have u: "unat ?w = 256 * unat hi + unat lo"
    by (rule unat_big_endian16)
  have "unat (ucast (drop_bit 8 ?w) :: byte) = unat hi"
    using unat_byte_less [of lo] unfolding unat_high_byte16 u by simp
  then show "ucast (drop_bit 8 ?w) = hi"
    by (simp only: word_unat_eq_iff)
  have "unat (ucast ?w :: byte) = unat lo"
    using unat_byte_less [of lo] unfolding unat_low_byte16 u by simp
  then show "ucast ?w = lo"
    by (simp only: word_unat_eq_iff)
qed

lemma parse_header_encoded:
  assumes "version p = 1" and "type p \<le> 3" and "length (token p) \<le> 8"
  shows "parse_header (header_bytes p @ rest)
           = Inr (default_pdu\<lparr>version := 1, type := type p, code := code p,
                    message_id := message_id p\<rparr>, length (token p))"
proof -
  let ?b = "header_bytes p @ rest"
  let ?h = "push_bit 6 1 OR push_bit 4 (type p) OR of_nat (length (token p)) :: byte"
  have t2: "take_bit 2 (type p) = type p"
    using assms(2) by (rule two_bit_take_bit)
  have t4: "take_bit 4 (of_nat (length (token p)) :: byte) = of_nat (length (token p))"
    using assms(3) by (rule token_length_byte)
  have h0: "?b ! 0 = ?h"
    using assms by (simp add: header_bytes_def)
  have b1: "?b ! 1 = code p" and b2: "?b ! 2 = ucast (drop_bit 8 (message_id p))"
    and b3: "?b ! 3 = ucast (message_id p)"
    by (simp_all add: header_bytes_def)
  have f: "drop_bit 6 ?h = 1" "take_bit 2 (drop_bit 4 ?h) = type p"
    "take_bit 4 ?h = of_nat (length (token p))"
    using header_byte_fields [of "type p" "of_nat (length (token p))"] by (simp_all only: t2 t4)
  have pre: "\<not> (length ?b < 4 \<or> drop_bit 6 (?b ! 0) \<noteq> 1 \<or> 8 < take_bit 4 (?b ! 0))"
    unfolding h0 f using assms(3) by (simp add: length_header_bytes token_length_byte)
  show ?thesis
    unfolding parse_header_Inr [OF pre] h0 f b1 b2 b3 message_id_roundtrip
    using assms(3) by (simp add: token_length_byte)
qed

lemma options_bytes_empty: "options_bytes prev opts = [] \<longleftrightarrow> opts = []"
  by (cases opts) (simp_all add: option_bytes_def)

lemma pdu_from_layout:
  assumes v: "version p = 1" and ty: "type p \<le> 3" and tk: "length (token p) \<le> 8"
    and r: "options_representable 0 (options p)" and t: "tail = [] \<or> hd tail = 0xFF"
  shows "pdu_from (header_bytes p @ token p @ options_bytes 0 (options p) @ tail)
           = Inr (p\<lparr>payload := drop 1 tail\<rparr>)"
    and "option_loop_end (header_bytes p @ token p @ options_bytes 0 (options p) @ tail)
           = Some (4 + length (token p) + length (options_bytes 0 (options p)))"
proof -
  let ?ob = "options_bytes 0 (options p)"
  let ?h = "default_pdu\<lparr>version := 1, type := type p, code := code p, message_id := message_id p\<rparr>"
  let ?w = "header_bytes p @ token p @ ?ob @ tail"
  have ph: "parse_header ?w = Inr (?h, length (token p))"
    using v ty tk by (rule parse_header_encoded)
  have lw: "length ?w = 4 + length (token p) + length ?ob + length tail"
    by (simp add: length_header_bytes)
  have tok: "take (length (token p)) (drop 4 ?w) = token p"
    by (simp add: length_header_bytes)
  have po: "parse_options ?w (4 + length (token p)) 0 [] = Inr (options p, 4 + length (token p) + length ?ob)"
    using parse_options_encoded [OF r t, of "header_bytes p @ token p" "[]"]
    by (simp add: length_header_bytes)
  have pl: "drop (4 + length (token p) + length ?ob + 1) ?w = drop 1 tail"
    by (simp add: length_header_bytes)
  have eq: "?h\<lparr>token := token p, options := options p, payload := pl\<rparr> = p\<lparr>payload := pl\<rparr>" for pl
    using v by (simp add: default_pdu_def)
  show "option_loop_end ?w = Some (4 + length (token p) + length ?ob)"
    by (simp add: option_loop_end_def ph po length_header_bytes)
  consider (bare) "?ob = []" "tail = []" | (opts) "?ob \<noteq> []" "tail = []" | (pay) "tail \<noteq> []"
    by blast
  then show "pdu_from ?w = Inr (p\<lparr>payload := drop 1 tail\<rparr>)"
  proof cases
    case bare
    then have "options p = []"
      by (simp add: options_bytes_empty)
    then have "?h\<lparr>token := token p\<rparr> = p\<lparr>payload := []\<rparr>"
      using eq [of "[]"] by (simp add: default_pdu_def)
    then show ?thesis
      unfolding pdu_from_unfold [OF ph] tok using bare by (simp add: length_header_bytes)
  next
    case opts
    have "?h\<lparr>token := token p, options := options p\<rparr> = p\<lparr>payload := []\<rparr>"
      using eq [of "[]"] by (simp add: default_pdu_def)
    then show ?thesis
      unfolding pdu_from_unfold [OF ph] tok po using opts by (simp add: length_header_bytes)
  next
    case pay
    then show ?thesis
      unfolding pdu_from_unfold [OF ph] tok po pl using pay eq by (simp add: length_header_bytes)
  qed
qed

lemma drop_payload_bytes: "drop 1 (payload_bytes pl) = pl"
  by (simp add: payload_bytes_def)

lemma pdu_from_wire_bytes:
  assumes "version p = 1" and "type p \<le> 3" and "length (token p) \<le> 8"
    and "options_representable 0 (options p)"
  shows "pdu_from (wire_bytes p) = Inr p"
proof -
  have "payload_bytes (payload p) = [] \<or> hd (payload_bytes (payload p)) = 0xFF"
    by (simp add: payload_bytes_def)
  from pdu_from_layout(1) [OF assms this] show ?thesis
    unfolding wire_bytes_def drop_payload_bytes by simp
qed

section \<open>What a successful decoding has read\<close>

lemma be16_bytes32:
  "ucast (drop_bit 8 (push_bit 8 (ucast hi) OR ucast lo :: 32 word)) = (hi :: byte)"
  "ucast (push_bit 8 (ucast hi) OR ucast lo :: 32 word) = (lo :: byte)"
  "(push_bit 8 (ucast hi) OR ucast lo :: 32 word) \<le> 0xFFFF"
proof -
  let ?w = "push_bit 8 (ucast hi) OR ucast lo :: 32 word"
  have u: "unat ?w = 256 * unat hi + unat lo"
    by (rule unat_big_endian32)
  show le: "?w \<le> 0xFFFF"
    using unat_byte_less [of hi] unat_byte_less [of lo] by (simp add: word_nat_cmp u)
  have "unat (ucast (drop_bit 8 ?w) :: byte) = unat hi"
    using unat_byte_less [of lo] unfolding unat_high_byte32 [OF le] u by simp
  then show "ucast (drop_bit 8 ?w) = hi"
    by (simp only: word_unat_eq_iff)
  have "unat (ucast ?w :: byte) = unat lo"
    using unat_byte_less [of lo] unfolding unat_low_byte32 u by simp
  then show "ucast ?w = lo"
    by (simp only: word_unat_eq_iff)
qed

lemma ucast_ucast_byte: "ucast (ucast (x :: byte) :: 32 word) = x"
  by (simp add: word_unat_eq_iff unat_low_byte32 unat_ucast_byte32 unat_byte_less)

lemma unat_13_plus: "unat (13 + ucast (x :: byte) :: 32 word) = 13 + unat x"
  using unat_byte_less [of x] by (simp add: unat_word_ariths unat_ucast_byte32)

lemma unat_269_plus:
  "unat (269 + (push_bit 8 (ucast (hi :: byte)) OR ucast (lo :: byte)) :: 32 word)
     = 269 + 256 * unat hi + unat lo"
  using unat_byte_less [of hi] unat_byte_less [of lo]
  by (simp add: unat_word_ariths unat_big_endian32)

lemma nibble_13_value:
  fixes x :: byte
  defines "v \<equiv> 13 + ucast x :: 32 word"
  shows "13 \<le> v" and "v < 269" and "ucast (v - 13) = x"
proof -
  have u: "unat v = 13 + unat x"
    unfolding v_def by (rule unat_13_plus)
  show "13 \<le> v" "v < 269"
    using unat_byte_less [of x] by (simp_all add: word_nat_cmp u)
  show "ucast (v - 13) = x"
    by (simp add: v_def ucast_ucast_byte)
qed

lemma nibble_14_value:
  fixes hi lo :: byte
  defines "v \<equiv> 269 + (push_bit 8 (ucast hi) OR ucast lo) :: 32 word"
  shows "269 \<le> v" and "v \<le> 65804" and "ucast (drop_bit 8 (v - 269)) = hi" and "ucast (v - 269) = lo"
proof -
  have u: "unat v = 269 + 256 * unat hi + unat lo"
    unfolding v_def by (rule unat_269_plus)
  show "269 \<le> v" "v \<le> 65804"
    using unat_byte_less [of hi] unat_byte_less [of lo] by (simp_all add: word_nat_cmp u)
  have "v - 269 = push_bit 8 (ucast hi) OR ucast lo"
    by (simp add: v_def)
  then show "ucast (drop_bit 8 (v - 269)) = hi" "ucast (v - 269) = lo"
    by (simp_all only: be16_bytes32)
qed

text \<open>What a successful \<open>parse_value\<close> has read, for a nibble \<open>n\<close> (a value below 16).\<close>

lemma parse_value_decoded:
  assumes "parse_value b it n = Inr (v, it')" and "n < 16"
  shows "v \<le> 65804" and "ucast (get_nibble v) = n" and "it' = it + get_size v"
    and "it' < length b \<or> get_size v = 0" and "take (get_size v) (drop (it + 1) b) = ext_bytes v"
proof -
  consider (one) "n = 13" | (two) "n = 14" | (small) "n < 13"
    using assms by (auto simp: word_nat_cmp parse_value_def word_unat_eq_iff split: if_splits)
  then have "v \<le> 65804 \<and> ucast (get_nibble v) = n \<and> it' = it + get_size v
    \<and> (it' < length b \<or> get_size v = 0) \<and> take (get_size v) (drop (it + 1) b) = ext_bytes v"
  proof cases
    case one
    with assms(1) have lt: "it + 1 < length b" and v: "v = 13 + ucast (b ! (it + 1))"
      and it': "it' = it + 1"
      by (auto simp: parse_value_def deref_def split: if_splits)
    note f = nibble_13_value [of "b ! (it + 1)", folded v]
    have "v \<le> 65804"
      using f(2) by (simp add: word_nat_cmp)
    moreover have "take 1 (drop (it + 1) b) = [b ! (it + 1)]"
      using lt by (simp add: take_Suc_conv_app_nth)
    ultimately show ?thesis
      using f lt it' one by (simp add: get_nibble_cases get_size_cases ext_bytes_cases)
  next
    case two
    with assms(1) have lt: "it + 2 < length b"
      and v: "v = 269 + (push_bit 8 (ucast (b ! (it + 1))) OR ucast (b ! (it + 2)))"
      and it': "it' = it + 2"
      by (auto simp: parse_value_def deref_def split: if_splits)
    note f = nibble_14_value [of "b ! (it + 1)" "b ! (it + 2)", folded v]
    have "take 2 (drop (it + 1) b) = [b ! (it + 1), b ! (it + 2)]"
      using lt by (simp add: take_Suc_conv_app_nth numeral_2_eq_2)
    then show ?thesis
      using f lt it' two by (simp add: get_nibble_cases get_size_cases ext_bytes_cases)
  next
    case small
    then have ne: "n \<noteq> 13" "n \<noteq> 14" "n \<noteq> 15"
      by (auto simp: word_nat_cmp)
    with assms(1) have v: "v = n" and it': "it' = it"
      by (auto simp: parse_value_def)
    from small have "v \<le> 65804"
      by (simp add: v word_nat_cmp)
    then show ?thesis
      using small v it' by (simp add: get_nibble_cases get_size_cases ext_bytes_cases
          ucast_byte_roundtrip word_nat_cmp)
  qed
  then show "v \<le> 65804" and "ucast (get_nibble v) = n" and "it' = it + get_size v"
    and "it' < length b \<or> get_size v = 0" and "take (get_size v) (drop (it + 1) b) = ext_bytes v"
    by auto
qed

lemma ucast_byte_inj: "(ucast (x :: byte) :: 32 word) = ucast y \<Longrightarrow> x = y"
  by (metis ucast_ucast_byte)

lemma high_nibble_less_16: "(ucast (drop_bit 4 (x :: byte)) :: 32 word) < 16"
proof -
  have "unat (drop_bit 4 x) < 16"
    using unat_byte_less [of x] unfolding unat_drop_bit_eq by (simp add: drop_bit_eq_div)
  then show ?thesis
    by (simp add: word_nat_cmp unat_ucast_byte32)
qed

lemma low_nibble_less_16: "(ucast ((x :: byte) AND 0x0F) :: 32 word) < 16"
proof -
  have "unat (take_bit 4 x) < 16"
    unfolding unsigned_take_bit_eq by (simp add: take_bit_eq_mod)
  then show ?thesis
    by (simp add: word_nat_cmp unat_ucast_byte32 low_nibble_bits)
qed

lemma size32_unat: "size32 v = l \<longleftrightarrow> length v mod 2 ^ 32 = unat l"
  by (simp add: size32_def word_unat_eq_iff unat_of_nat)

lemma parse_option_decoded:
  assumes p: "parse_option b it prev = Inr (opt, e)" and it: "it < length b"
  shows "number opt - prev \<le> 65804" and "length (opt_value opt) \<le> 65804"
    and "e = it + length (option_bytes prev opt)" and "e \<le> length b"
    and "take (length (option_bytes prev opt)) (drop it b) = option_bytes prev opt"
proof -
  let ?x = "b ! it"
  from p obtain d it1 where 1: "parse_value b it (ucast (drop_bit 4 ?x)) = Inr (d, it1)"
    by (auto simp: parse_option_def split: sum.splits)
  from p 1 obtain l it2 where 2: "parse_value b it1 (ucast (?x AND 0x0F)) = Inr (l, it2)"
    by (auto simp: parse_option_def split: sum.splits)
  from p 1 2 have e: "e = it2 + 1 + unat l" and le: "e \<le> length b"
    and opt: "opt = \<lparr>number = prev + d, opt_value = take (unat l) (drop (it2 + 1) b)\<rparr>"
    by (auto simp: parse_option_def Let_def split: if_splits)
  note fd = parse_value_decoded [OF 1 high_nibble_less_16]
  note fl = parse_value_decoded [OF 2 low_nibble_less_16]
  have nd: "get_nibble d = drop_bit 4 ?x" and nl: "get_nibble l = ?x AND 0x0F"
    using fd(2) fl(2) by (auto dest: ucast_byte_inj)
  have num: "number opt - prev = d"
    by (simp add: opt)
  have len: "length (opt_value opt) = unat l"
    using e le by (simp add: opt)
  have ul: "unat l \<le> 65804"
    using fl(1) by (simp add: word_nat_cmp)
  have sz: "size32 (opt_value opt) = l"
    using ul by (simp add: size32_unat len)
  have ob: "option_bytes prev opt = ?x # ext_bytes d @ ext_bytes l @ opt_value opt"
    by (simp add: option_bytes_def num sz nd nl descriptor_split)
  have lob: "length (option_bytes prev opt) = 1 + get_size d + get_size l + unat l"
    by (simp add: ob length_ext_bytes len)
  show "number opt - prev \<le> 65804"
    using fd(1) by (simp add: num)
  show "length (opt_value opt) \<le> 65804"
    using ul by (simp add: len)
  show e': "e = it + length (option_bytes prev opt)"
    by (simp add: e lob fl(3) fd(3))
  show "e \<le> length b"
    by (rule le)
  have "take (1 + (get_size d + (get_size l + unat l))) (drop it b)
      = ?x # take (get_size d) (drop (it + 1) b)
          @ take (get_size l) (drop (it + 1 + get_size d) b)
          @ take (unat l) (drop (it + 1 + get_size d + get_size l) b)"
    using it by (simp add: take_add Cons_nth_drop_Suc [symmetric] add.commute add.left_commute)
  also have "\<dots> = ?x # ext_bytes d @ ext_bytes l @ opt_value opt"
    using fd(5) fl(5) by (simp add: fd(3) fl(3) opt add.commute add.left_commute)
  finally show "take (length (option_bytes prev opt)) (drop it b) = option_bytes prev opt"
    unfolding lob by (simp add: ob add.assoc)
qed

lemma parse_options_decoded:
  "parse_options b it prev acc = Inr (opts, it') \<Longrightarrow> it \<le> length b \<Longrightarrow>
     \<exists>new. opts = acc @ new \<and> options_representable prev new
       \<and> it' = it + length (options_bytes prev new)
       \<and> take (length (options_bytes prev new)) (drop it b) = options_bytes prev new
       \<and> it' \<le> length b \<and> (it' < length b \<longrightarrow> b ! it' = 0xFF)"
proof (induction b it prev acc rule: parse_options.induct)
  case (1 b it prev acc)
  show ?case
  proof (cases "it < length b \<and> b ! it \<noteq> 0xFF")
    case False
    with "1.prems" have "opts = acc" "it' = it"
      by (simp_all add: parse_options_end)
    with False "1.prems"(2) show ?thesis
      by (intro exI [of _ "[]"]) auto
  next
    case True
    then have lt: "it < length b" and ne: "b ! it \<noteq> 0xFF"
      by simp_all
    show ?thesis
    proof (cases "parse_option b it prev")
      case (Inl e)
      with "1.prems"(1) lt ne show ?thesis
        by (simp add: parse_options_fail)
    next
      case (Inr r)
      obtain opt e where r: "r = (opt, e)"
        by (cases r)
      have po: "parse_option b it prev = Inr (opt, e)"
        using Inr r by simp
      note f = parse_option_decoded [OF po lt]
      from "1.prems"(1) have rec: "parse_options b e (number opt) (acc @ [opt]) = Inr (opts, it')"
        using parse_options_step [OF lt ne po, of acc] by simp
      from "1.IH" [OF True Inr r [symmetric] rec f(4)]
      obtain new where n: "opts = (acc @ [opt]) @ new" "options_representable (number opt) new"
        "it' = e + length (options_bytes (number opt) new)"
        "take (length (options_bytes (number opt) new)) (drop e b) = options_bytes (number opt) new"
        "it' \<le> length b" "it' < length b \<longrightarrow> b ! it' = 0xFF"
        by blast
      have "take (length (option_bytes prev opt) + length (options_bytes (number opt) new)) (drop it b)
          = option_bytes prev opt @ options_bytes (number opt) new"
        using f(5) n(4) by (simp add: take_add f(3) add.commute)
      with n f show ?thesis
        by (intro exI [of _ "opt # new"]) (simp add: add.assoc)
    qed
  qed
qed

lemma take_bit_2_le_3: "take_bit 2 (x :: byte) \<le> 3"
proof -
  have "unat (take_bit 2 x) < 4"
    unfolding unsigned_take_bit_eq by (simp add: take_bit_eq_mod)
  then show ?thesis
    by (simp add: word_nat_cmp)
qed

lemma parse_header_decoded:
  assumes "parse_header b = Inr (h, tkl)" and "length tok = tkl"
  shows "take 4 b = header_bytes (h\<lparr>token := tok\<rparr>)" and "version h = 1" and "type h \<le> 3"
    and "tkl \<le> 8" and "4 \<le> length b" and "options h = []" and "payload h = []"
proof -
  let ?bad = "length b < 4 \<or> drop_bit 6 (b ! 0) \<noteq> 1 \<or> 8 < take_bit 4 (b ! 0)"
  from assms(1) have good: "\<not> ?bad"
    using parse_header_Inl [of b] by auto
  note ph = parse_header_Inr [OF good]
  from ph assms(1) have h: "h = default_pdu\<lparr>version := 1, type := take_bit 2 (drop_bit 4 (b ! 0)),
      code := b ! 1, message_id := push_bit 8 (ucast (b ! 2)) OR ucast (b ! 3)\<rparr>"
    and tkl: "tkl = unat (take_bit 4 (b ! 0))"
    by simp_all
  from good have len: "4 \<le> length b" and v: "drop_bit 6 (b ! 0) = 1"
    and t8: "\<not> 8 < take_bit 4 (b ! 0)"
    by simp_all
  show "version h = 1" "options h = []" "payload h = []"
    by (simp_all add: h default_pdu_def)
  show "type h \<le> 3"
    by (simp add: h take_bit_2_le_3)
  show "tkl \<le> 8"
    using t8 by (simp add: tkl word_nat_cmp)
  show "4 \<le> length b"
    by (rule len)
  from len obtain b0 b1 b2 b3 rest where "b = b0 # b1 # b2 # b3 # rest"
    by (auto simp: numeral_eq_Suc Suc_le_length_iff)
  then have "take 4 b = [b ! 0, b ! 1, b ! 2, b ! 3]"
    by simp
  moreover have "header_bytes (h\<lparr>token := tok\<rparr>) = [b ! 0, b ! 1, b ! 2, b ! 3]"
    using header_byte_split [OF v]
    by (simp add: header_bytes_def h assms(2) tkl message_id_bytes del: drop_bit_or)
  ultimately show "take 4 b = header_bytes (h\<lparr>token := tok\<rparr>)"
    by simp
qed

lemma split_buffer: "b = take n b @ take k (drop n b) @ drop (n + k) b"
  by (metis append_take_drop_id drop_drop add.commute)

lemma pdu_from_decoded:
  assumes "pdu_from b = Inr m"
  shows "\<exists>tail. b = header_bytes m @ token m @ options_bytes 0 (options m) @ tail
           \<and> (tail = [] \<or> hd tail = 0xFF) \<and> payload m = drop 1 tail
           \<and> option_loop_end b = Some (length b - length tail)"
    and "version m = 1" and "type m \<le> 3" and "length (token m) \<le> 8"
    and "options_representable 0 (options m)"
proof -
  from assms obtain h tkl where ph: "parse_header b = Inr (h, tkl)"
    using pdu_from_header_fields by blast
  define tok where "tok = take tkl (drop 4 b)"
  from assms have fits: "4 + tkl \<le> length b"
    by (auto simp: pdu_from_unfold [OF ph] split: if_splits)
  then have ltok: "length tok = tkl"
    by (simp add: tok_def)
  note hd = parse_header_decoded [OF ph ltok]
  have "b = take 4 b @ tok @ drop (4 + tkl) b"
    unfolding tok_def by (rule split_buffer)
  then have front: "b = header_bytes (h\<lparr>token := tok\<rparr>) @ tok @ drop (4 + tkl) b"
    by (simp only: hd(1))
  have "(\<exists>tail. b = header_bytes m @ token m @ options_bytes 0 (options m) @ tail
           \<and> (tail = [] \<or> hd tail = 0xFF) \<and> payload m = drop 1 tail
           \<and> option_loop_end b = Some (length b - length tail))
        \<and> version m = 1 \<and> type m \<le> 3 \<and> length (token m) \<le> 8
        \<and> options_representable 0 (options m)"
  proof (cases "4 + tkl \<ge> length b")
    case True
    with assms have m: "m = h\<lparr>token := tok\<rparr>"
      by (auto simp: pdu_from_unfold [OF ph] tok_def split: if_splits)
    from True fits have e: "drop (4 + tkl) b = []"
      by simp
    have ole: "option_loop_end b = Some (length b)"
      using True fits by (simp add: option_loop_end_def ph parse_options_end)
    have "b = header_bytes m @ token m @ options_bytes 0 (options m) @ []"
      using front by (simp add: m e hd(6))
    with ole show ?thesis
      using hd ltok by (intro conjI exI [of _ "[]"]) (simp_all add: m)
  next
    case False
    with assms obtain opts it' where po: "parse_options b (4 + tkl) 0 [] = Inr (opts, it')"
      by (auto simp: pdu_from_unfold [OF ph] split: if_splits sum.splits)
    from parse_options_decoded [OF po fits]
    have rep: "options_representable 0 opts"
      and it': "it' = 4 + tkl + length (options_bytes 0 opts)"
      and tk: "take (length (options_bytes 0 opts)) (drop (4 + tkl) b) = options_bytes 0 opts"
      and le: "it' \<le> length b" and sent: "it' < length b \<longrightarrow> b ! it' = 0xFF"
      by auto
    define tail where "tail = drop it' b"
    have m: "m = h\<lparr>token := tok, options := opts, payload := drop 1 tail\<rparr>"
      using assms False po le hd(7)
      by (auto simp: pdu_from_unfold [OF ph] tok_def tail_def split: if_splits)
    have "length (options_bytes 0 opts) + (4 + tkl) = it'"
      by (simp add: it')
    moreover have "drop (4 + tkl) b = take (length (options_bytes 0 opts)) (drop (4 + tkl) b)
        @ drop (length (options_bytes 0 opts)) (drop (4 + tkl) b)"
      by (simp only: append_take_drop_id)
    ultimately have "drop (4 + tkl) b = options_bytes 0 opts @ tail"
      by (simp only: tk drop_drop tail_def)
    with front have b: "b = header_bytes (h\<lparr>token := tok\<rparr>) @ tok @ options_bytes 0 opts @ tail"
      by simp
    have hb: "header_bytes m = header_bytes (h\<lparr>token := tok\<rparr>)"
      by (simp add: m header_bytes_def)
    have t: "tail = [] \<or> hd tail = 0xFF"
      using sent le by (cases "it' < length b") (simp_all add: tail_def hd_drop_conv_nth)
    have ole: "option_loop_end b = Some (length b - length tail)"
      using fits le by (simp add: option_loop_end_def ph po tail_def)
    have "b = header_bytes m @ token m @ options_bytes 0 (options m) @ tail"
      using b by (simp add: hb) (simp add: m)
    with t ole show ?thesis
      using hd ltok rep by (intro conjI exI [of _ tail]) (simp_all add: m)
  qed
  then show "\<exists>tail. b = header_bytes m @ token m @ options_bytes 0 (options m) @ tail
           \<and> (tail = [] \<or> hd tail = 0xFF) \<and> payload m = drop 1 tail
           \<and> option_loop_end b = Some (length b - length tail)"
    and "version m = 1" and "type m \<le> 3" and "length (token m) \<le> 8"
    and "options_representable 0 (options m)"
    by blast+
qed

section \<open>The sorted container keeps the options ascending\<close>

lemma set_emplace: "set (emplace x ys) = insert x (set ys)"
  by (induction ys) auto

lemma sorted_emplace:
  "sorted (map number ys) \<Longrightarrow> sorted (map number (emplace x ys))"
  by (induction ys) (auto simp: set_emplace)

lemma add_option_multimap_sorted:
  "sorted (map number (options p)) \<Longrightarrow>
     sorted (map number (options (snd (add_option_multimap n v p))))"
  by (simp add: add_option_multimap_def sorted_emplace)

section \<open>Properties of the codec\<close>

lemma build_fields:
  "build cs p = Inr m \<Longrightarrow> version p = 1 \<Longrightarrow> type p \<le> 3 \<Longrightarrow> length (token p) \<le> 8 \<Longrightarrow>
     version m = 1 \<and> type m \<le> 3 \<and> length (token m) \<le> 8"
proof (induction cs arbitrary: p)
  case Nil
  then show ?case by simp
next
  case (Cons c cs)
  obtain r p' where step: "mutate c p = (r, p')"
    by (cases "mutate c p")
  with Cons.prems(1) have rest: "build cs p' = Inr m" and ok: "\<exists>u. r = Inr u"
    by (auto split: sum.splits)
  from step ok Cons.prems(2-4)
  have "version p' = 1 \<and> type p' \<le> 3 \<and> length (token p') \<le> 8"
    by (cases c)
       (auto simp: set_type_def set_code_def set_message_id_def set_token_def add_option_def
          set_payload_def not_less split: if_splits)
  with rest show ?case
    using Cons.IH by blast
qed

text \<open>
  The round trip through \<open>to_bytes\<close> and \<open>pdu_from\<close> holds for a message built by
  mutator calls that all succeed, when the deltas are representable between the options
  in the order of the calls, and the encoding is shorter than \<open>2 ^ 31\<close> bytes.
\<close>

lemma round_trip_in_call_order:
  assumes "build cs default_pdu = Inr m" and "options_representable 0 (options m)"
    and "length (wire_bytes m) < 2 ^ 31"
  shows "to_bytes m = Inr (wire_bytes m)" and "pdu_from (wire_bytes m) = Inr m"
proof -
  have "version m = 1 \<and> type m \<le> 3 \<and> length (token m) \<le> 8"
    using assms(1) by (rule build_fields) (simp_all add: default_pdu_def)
  then show "pdu_from (wire_bytes m) = Inr m"
    using assms(2) by (simp add: pdu_from_wire_bytes)
  show "to_bytes m = Inr (wire_bytes m)"
    using assms(2,3) by (simp add: to_bytes_eq options_representable_encodable)
qed

text \<open>
  C3 (the code differs). The calls \<^verbatim>\<open>add_option(5, ...)\<close> and \<^verbatim>\<open>add_option(1, ...)\<close> on a
  default message are valid: between the options in ascending order the deltas are 1
  and 4. \<open>add_option\<close> appends, so the options stay in the order 5, 1; \<open>to_bytes\<close> takes
  the second delta as \<open>1 - 5\<close> in \<^verbatim>\<open>uint32_t\<close>, and its assertion fails: there are no bytes to
  decode. The same two options in ascending order are encoded and decoded back.
\<close>

theorem call_order_breaks_round_trip:
  "build out_of_order_calls default_pdu = Inr out_of_order_pdu
   \<and> map number (options out_of_order_pdu) = [5, 1]
   \<and> number (options out_of_order_pdu ! 1) - number (options out_of_order_pdu ! 0) = 0xFFFFFFFC
   \<and> to_bytes out_of_order_pdu = Inl AssertFailed
   \<and> map number (options in_order_pdu) = [1, 5]
   \<and> options_representable 0 (options in_order_pdu)
   \<and> to_bytes in_order_pdu = Inr [0x40, 0, 0, 0, 0x11, 0x31, 0x41, 0x35]
   \<and> pdu_from [0x40, 0, 0, 0, 0x11, 0x31, 0x41, 0x35] = Inr in_order_pdu"
proof -
  have "build out_of_order_calls default_pdu = Inr out_of_order_pdu"
    by code_simp
  moreover have "map number (options out_of_order_pdu) = [5, 1]"
    "number (options out_of_order_pdu ! 1) - number (options out_of_order_pdu ! 0) = 0xFFFFFFFC"
    by (simp_all add: out_of_order_pdu_def)
  moreover have "to_bytes out_of_order_pdu = Inl AssertFailed"
    by code_simp
  moreover have "map number (options in_order_pdu) = [1, 5]"
    "options_representable 0 (options in_order_pdu)"
    by (simp_all add: in_order_pdu_def)
  moreover have "to_bytes in_order_pdu = Inr [0x40, 0, 0, 0, 0x11, 0x31, 0x41, 0x35]"
    by code_simp
  moreover have "pdu_from [0x40, 0, 0, 0, 0x11, 0x31, 0x41, 0x35] = Inr in_order_pdu"
    by code_simp
  ultimately show ?thesis
    by (intro conjI)
qed

text \<open>
  C5. Decoding fails in the header stage exactly when the buffer has fewer than 4 bytes,
  or the top two bits of byte 0 are not 1, or its low four bits are greater than 8.
  Otherwise the header stage succeeds with version 1, the type from the next two bits,
  the token length from the low four bits, the code from byte 1 and the big-endian
  message id from bytes 2 and 3, and a decoded message carries these fields.
\<close>

theorem header_stage:
  "((\<exists>e. pdu_from b = Inl e \<and> malformed_header e) \<longleftrightarrow>
      (length b < 4 \<or> drop_bit 6 (b ! 0) \<noteq> 1 \<or> 8 < take_bit 4 (b ! 0)))
   \<and> (\<not> (length b < 4 \<or> drop_bit 6 (b ! 0) \<noteq> 1 \<or> 8 < take_bit 4 (b ! 0)) \<longrightarrow>
        (\<exists>h tkl. parse_header b = Inr (h, tkl) \<and> version h = 1
           \<and> type h = take_bit 2 (drop_bit 4 (b ! 0)) \<and> tkl = unat (take_bit 4 (b ! 0))
           \<and> code h = b ! 1 \<and> unat (message_id h) = 256 * unat (b ! 2) + unat (b ! 3)))
   \<and> (\<forall>m. pdu_from b = Inr m \<longrightarrow>
          version m = 1 \<and> type m = take_bit 2 (drop_bit 4 (b ! 0))
          \<and> length (token m) = unat (take_bit 4 (b ! 0)) \<and> code m = b ! 1
          \<and> unat (message_id m) = 256 * unat (b ! 2) + unat (b ! 3))"
proof -
  let ?bad = "length b < 4 \<or> drop_bit 6 (b ! 0) \<noteq> 1 \<or> 8 < take_bit 4 (b ! 0)"
  let ?h = "default_pdu\<lparr>version := 1, type := take_bit 2 (drop_bit 4 (b ! 0)), code := b ! 1,
              message_id := push_bit 8 (ucast (b ! 2)) OR ucast (b ! 3)\<rparr>"
  have fails: "(\<exists>e. pdu_from b = Inl e \<and> malformed_header e) \<longleftrightarrow> ?bad"
    by (simp only: pdu_from_header_failure parse_header_Inl)
  have good: "parse_header b = Inr (?h, unat (take_bit 4 (b ! 0)))" if "\<not> ?bad"
    using that by (rule parse_header_Inr)
  have stage: "\<exists>h tkl. parse_header b = Inr (h, tkl) \<and> version h = 1
           \<and> type h = take_bit 2 (drop_bit 4 (b ! 0)) \<and> tkl = unat (take_bit 4 (b ! 0))
           \<and> code h = b ! 1 \<and> unat (message_id h) = 256 * unat (b ! 2) + unat (b ! 3)"
    if "\<not> ?bad"
    using good [OF that] by (simp add: unat_big_endian16)
  have decoded: "version m = 1 \<and> type m = take_bit 2 (drop_bit 4 (b ! 0))
          \<and> length (token m) = unat (take_bit 4 (b ! 0)) \<and> code m = b ! 1
          \<and> unat (message_id m) = 256 * unat (b ! 2) + unat (b ! 3)"
    if m: "pdu_from b = Inr m" for m
  proof -
    from m obtain h tkl where h: "parse_header b = Inr (h, tkl)" and f: "version m = version h"
      "type m = type h" "code m = code h" "message_id m = message_id h" "length (token m) = tkl"
      using pdu_from_header_fields by blast
    from h have "\<not> ?bad"
      using parse_header_Inl [of b] by auto
    from good [OF this] h f show ?thesis
      by (auto simp: unat_big_endian16)
  qed
  from fails stage decoded show ?thesis
    by blast
qed

theorem header_stage_witness:
  "pdu_from [0xC0, 0, 0, 0] = Inl (InvalidPdu UnsupportedVersion)
   \<and> malformed_header (InvalidPdu UnsupportedVersion)
   \<and> drop_bit 6 ([0xC0, 0, 0, 0 :: byte] ! 0) = (3 :: byte)
   \<and> pdu_from [0x49, 0, 0, 0] = Inl (InvalidPdu TokenLengthOver8)
   \<and> take_bit 4 ([0x49, 0, 0, 0 :: byte] ! 0) = (9 :: byte)
   \<and> pdu_from [] = Inl (InvalidPdu BufferTooShort)
   \<and> pdu_from scenario_target = Inr ascending_pdu
   \<and> version ascending_pdu = 1 \<and> type ascending_pdu = 2 \<and> code ascending_pdu = 2
   \<and> unat (message_id ascending_pdu) = 256"
proof -
  have 1: "pdu_from [0xC0, 0, 0, 0] = Inl (InvalidPdu UnsupportedVersion)"
    "pdu_from [0x49, 0, 0, 0] = Inl (InvalidPdu TokenLengthOver8)"
    "pdu_from [] = Inl (InvalidPdu BufferTooShort)"
    by code_simp+
  have 2: "pdu_from scenario_target = Inr ascending_pdu"
    by code_simp
  have 3: "take_bit 4 (0x49 :: byte) = 9" "drop_bit 6 (0xC0 :: byte) = 3"
    by code_simp+
  show ?thesis
    using header_stage [of scenario_target] header_stage [of "[0xC0, 0, 0, 0]"] 1 2 3
    by (simp add: malformed_header_def ascending_pdu_def)
qed

text \<open>
  C10. \<open>set_type\<close> with a value above 3 and \<open>set_token\<close> with more than 8 bytes throw, and
  the object after the call is the object before it, in every field.
\<close>

theorem failing_mutators_change_nothing:
  "(3 < t \<longrightarrow> set_type t p = (Inl (InvalidPdu InvalidType), p))
   \<and> (8 < length tok \<longrightarrow> set_token tok p = (Inl (InvalidPdu TokenTooLong), p))"
  by (simp add: set_type_def set_token_def)

theorem failing_mutators_change_nothing_witness:
  "(3 :: byte) < 4
   \<and> set_type 4 ascending_pdu = (Inl (InvalidPdu InvalidType), ascending_pdu)
   \<and> 8 < length (replicate 9 (0 :: byte))
   \<and> set_token (replicate 9 0) ascending_pdu = (Inl (InvalidPdu TokenTooLong), ascending_pdu)"
  using failing_mutators_change_nothing [of 4 ascending_pdu "replicate 9 0"] by simp


text \<open>
  C1 (amended). Encoding a decoded message reproduces the buffer byte for byte, for every
  buffer shorter than \<open>2 ^ 31\<close> bytes that decodes, unless the buffer ends with a separator
  that no payload byte follows. Then the decoded payload is empty, and \<open>to_bytes\<close> gives
  the buffer without that last byte.
\<close>

theorem encode_of_decode:
  assumes "pdu_from b = Inr m" and "length b < 2 ^ 31"
  shows "(b \<noteq> wire_bytes m @ [0xFF] \<longrightarrow> to_bytes m = Inr b)
       \<and> (b = wire_bytes m @ [0xFF] \<longrightarrow> payload m = [] \<and> to_bytes m = Inr (butlast b))"
proof -
  from pdu_from_decoded [OF assms(1)]
  obtain tail where b: "b = header_bytes m @ token m @ options_bytes 0 (options m) @ tail"
    and t: "tail = [] \<or> hd tail = 0xFF" and pl: "payload m = drop 1 tail"
    and r: "options_representable 0 (options m)"
    by blast
  have "length (payload_bytes (payload m)) \<le> length tail"
    using pl by (cases tail) (simp_all add: payload_bytes_def)
  then have "length (wire_bytes m) \<le> length b"
    by (subst b) (simp add: wire_bytes_def)
  then have "length (wire_bytes m) < 2 ^ 31"
    using assms(2) by (rule le_less_trans)
  then have enc: "to_bytes m = Inr (wire_bytes m)"
    using r by (simp add: to_bytes_eq options_representable_encodable)
  show ?thesis
  proof (cases "tail = [0xFF]")
    case True
    with pl have e: "payload m = []"
      by simp
    with b True have "b = wire_bytes m @ [0xFF]"
      by (simp add: wire_bytes_def payload_bytes_def)
    with e enc show ?thesis
      by simp
  next
    case False
    with t pl have "payload_bytes (payload m) = tail"
      by (cases tail) (auto simp: payload_bytes_def)
    with b have "wire_bytes m = b"
      by (simp add: wire_bytes_def)
    with enc show ?thesis
      by simp
  qed
qed

theorem encode_of_decode_witness:
  "pdu_from scenario_target = Inr ascending_pdu \<and> length scenario_target < 2 ^ 31
   \<and> scenario_target \<noteq> wire_bytes ascending_pdu @ [0xFF]
   \<and> to_bytes ascending_pdu = Inr scenario_target
   \<and> pdu_from [0x40, 0, 0, 0, 0xD0, 0x05, 0xFF] = Inr empty_value_pdu
   \<and> length [0x40, 0, 0, 0, 0xD0, 0x05, 0xFF :: byte] < 2 ^ 31
   \<and> [0x40, 0, 0, 0, 0xD0, 0x05, 0xFF] = wire_bytes empty_value_pdu @ [0xFF]
   \<and> payload empty_value_pdu = []
   \<and> to_bytes empty_value_pdu = Inr [0x40, 0, 0, 0, 0xD0, 0x05]"
proof -
  have 1: "pdu_from scenario_target = Inr ascending_pdu"
    by code_simp
  have 2: "length scenario_target < 2 ^ 31"
    by (simp add: scenario_target_def)
  have 3: "scenario_target \<noteq> wire_bytes ascending_pdu @ [0xFF]"
    by code_simp
  have 4: "pdu_from [0x40, 0, 0, 0, 0xD0, 0x05, 0xFF] = Inr empty_value_pdu"
    by code_simp
  have 5: "length [0x40, 0, 0, 0, 0xD0, 0x05, 0xFF :: byte] < 2 ^ 31"
    by simp
  have 6: "[0x40, 0, 0, 0, 0xD0, 0x05, 0xFF] = wire_bytes empty_value_pdu @ [0xFF]"
    by code_simp
  from encode_of_decode [OF 1 2] 3 have 7: "to_bytes ascending_pdu = Inr scenario_target"
    by blast
  from encode_of_decode [OF 4 5] 6 have "payload empty_value_pdu = []
    \<and> to_bytes empty_value_pdu = Inr (butlast [0x40, 0, 0, 0, 0xD0, 0x05, 0xFF])"
    by blast
  then have 8: "payload empty_value_pdu = []"
    and 9: "to_bytes empty_value_pdu = Inr [0x40, 0, 0, 0, 0xD0, 0x05]"
    by simp_all
  show ?thesis
    by (intro conjI) (rule 1 2 3 4 5 6 7 8 9)+
qed

text \<open>
  C1 as claimed fails: the five bytes of a default header and a separator have no option,
  hence no extension byte; they decode, and \<open>to_bytes\<close> returns four bytes.
\<close>

theorem bare_separator_is_not_reproduced:
  "pdu_from [0x40, 0, 0, 0, 0xFF] = Inr default_pdu
   \<and> options default_pdu = []
   \<and> to_bytes default_pdu = Inr [0x40, 0, 0, 0]
   \<and> to_bytes default_pdu \<noteq> Inr [0x40, 0, 0, 0, 0xFF]"
  by code_simp

text \<open>
  C8. A buffer that ends behind its last option entry is the four header bytes of a
  message with version 1, a type of at most 3 and a token of at most 8 bytes, the token,
  and the entries of options with representable deltas and lengths. It decodes to that
  message with an empty payload; and so does the same buffer followed by one separator
  byte.
\<close>

theorem no_payload_with_or_without_separator:
  assumes "version p = 1" and "type p \<le> 3" and "length (token p) \<le> 8"
    and "options_representable 0 (options p)"
  shows "pdu_from (header_bytes p @ token p @ options_bytes 0 (options p))
           = Inr (p\<lparr>payload := []\<rparr>)
       \<and> pdu_from (header_bytes p @ token p @ options_bytes 0 (options p) @ [0xFF])
           = Inr (p\<lparr>payload := []\<rparr>)"
proof -
  have "pdu_from (header_bytes p @ token p @ options_bytes 0 (options p) @ [])
          = Inr (p\<lparr>payload := drop 1 []\<rparr>)"
    using assms by (rule pdu_from_layout) simp
  moreover have "pdu_from (header_bytes p @ token p @ options_bytes 0 (options p) @ [0xFF])
          = Inr (p\<lparr>payload := drop 1 [0xFF]\<rparr>)"
    using assms by (rule pdu_from_layout) simp
  ultimately show ?thesis
    by simp
qed

theorem no_payload_with_or_without_separator_witness:
  "version empty_value_pdu = 1 \<and> type empty_value_pdu \<le> 3
   \<and> length (token empty_value_pdu) \<le> 8
   \<and> options_representable 0 (options empty_value_pdu)
   \<and> header_bytes empty_value_pdu @ token empty_value_pdu
        @ options_bytes 0 (options empty_value_pdu) = [0x40, 0, 0, 0, 0xD0, 0x05]
   \<and> pdu_from [0x40, 0, 0, 0, 0xD0, 0x05] = Inr (empty_value_pdu\<lparr>payload := []\<rparr>)
   \<and> pdu_from [0x40, 0, 0, 0, 0xD0, 0x05, 0xFF] = Inr (empty_value_pdu\<lparr>payload := []\<rparr>)"
proof -
  have 1: "version empty_value_pdu = 1" "type empty_value_pdu \<le> 3"
    "length (token empty_value_pdu) \<le> 8" "options_representable 0 (options empty_value_pdu)"
    by (simp_all add: empty_value_pdu_def default_pdu_def)
  have 2: "header_bytes empty_value_pdu @ token empty_value_pdu
        @ options_bytes 0 (options empty_value_pdu) = [0x40, 0, 0, 0, 0xD0, 0x05]"
    "header_bytes empty_value_pdu @ token empty_value_pdu
        @ options_bytes 0 (options empty_value_pdu) @ [0xFF] = [0x40, 0, 0, 0, 0xD0, 0x05, 0xFF]"
    by code_simp+
  show ?thesis
    using 1 no_payload_with_or_without_separator [OF 1] unfolding 2 by simp
qed

text \<open>
  C9. A separator byte is recognised only at the boundary of an option entry. Forward:
  whatever bytes the values and the extension bytes of a run of entries hold, the loop
  consumes every entry, stops at the \<open>0xFF\<close> behind the last one, and the payload is what
  follows it. Backward: in every buffer that decodes, the bytes between the token and
  the place where the loop stopped are exactly the entries of the decoded options.
\<close>

theorem separator_only_at_entry_boundary:
  "(version p = 1 \<and> type p \<le> 3 \<and> length (token p) \<le> 8
      \<and> options_representable 0 (options p) \<longrightarrow>
      pdu_from (header_bytes p @ token p @ options_bytes 0 (options p) @ 0xFF # pl)
        = Inr (p\<lparr>payload := pl\<rparr>)
      \<and> option_loop_end (header_bytes p @ token p @ options_bytes 0 (options p) @ 0xFF # pl)
        = Some (4 + length (token p) + length (options_bytes 0 (options p))))
   \<and> (pdu_from b = Inr m \<longrightarrow>
        (\<exists>tail. b = header_bytes m @ token m @ options_bytes 0 (options m) @ tail
           \<and> (tail = [] \<or> hd tail = 0xFF) \<and> payload m = drop 1 tail
           \<and> option_loop_end b = Some (length b - length tail)))"
proof -
  have "pdu_from (header_bytes p @ token p @ options_bytes 0 (options p) @ 0xFF # pl)
        = Inr (p\<lparr>payload := pl\<rparr>)
      \<and> option_loop_end (header_bytes p @ token p @ options_bytes 0 (options p) @ 0xFF # pl)
        = Some (4 + length (token p) + length (options_bytes 0 (options p)))"
    if "version p = 1" "type p \<le> 3" "length (token p) \<le> 8"
      "options_representable 0 (options p)"
    using pdu_from_layout [OF that, of "0xFF # pl"] by simp
  moreover have "\<exists>tail. b = header_bytes m @ token m @ options_bytes 0 (options m) @ tail
           \<and> (tail = [] \<or> hd tail = 0xFF) \<and> payload m = drop 1 tail
           \<and> option_loop_end b = Some (length b - length tail)"
    if "pdu_from b = Inr m"
    using that by (rule pdu_from_decoded)
  ultimately show ?thesis
    by blast
qed

theorem separator_only_at_entry_boundary_witness:
  "version ascending_pdu = 1 \<and> type ascending_pdu \<le> 3 \<and> length (token ascending_pdu) \<le> 8
   \<and> options_representable 0 (options ascending_pdu)
   \<and> header_bytes ascending_pdu @ token ascending_pdu @ options_bytes 0 (options ascending_pdu)
        @ 0xFF # [0xFF, 0x42] =
      [0x60, 2, 1, 0, 0x11, 0xFF, 0x11, 0xFF, 0x33, 0xFF, 0xFF, 0xFF,
       0xD3, 0xFF, 0xFF, 0xFF, 0xFF, 0xE3, 0xFF, 0xFF, 0xFF, 0xFF, 0xFF, 0xFF, 0xFF, 0x42]
   \<and> pdu_from [0x60, 2, 1, 0, 0x11, 0xFF, 0x11, 0xFF, 0x33, 0xFF, 0xFF, 0xFF,
       0xD3, 0xFF, 0xFF, 0xFF, 0xFF, 0xE3, 0xFF, 0xFF, 0xFF, 0xFF, 0xFF, 0xFF, 0xFF, 0x42]
       = Inr (ascending_pdu\<lparr>payload := [0xFF, 0x42]\<rparr>)
   \<and> option_loop_end [0x60, 2, 1, 0, 0x11, 0xFF, 0x11, 0xFF, 0x33, 0xFF, 0xFF, 0xFF,
       0xD3, 0xFF, 0xFF, 0xFF, 0xFF, 0xE3, 0xFF, 0xFF, 0xFF, 0xFF, 0xFF, 0xFF, 0xFF, 0x42]
       = Some 23"
proof -
  have 1: "version ascending_pdu = 1 \<and> type ascending_pdu \<le> 3 \<and> length (token ascending_pdu) \<le> 8
   \<and> options_representable 0 (options ascending_pdu)"
    by (simp add: ascending_pdu_def)
  have 2: "header_bytes ascending_pdu @ token ascending_pdu @ options_bytes 0 (options ascending_pdu)
        @ 0xFF # [0xFF, 0x42] =
      [0x60, 2, 1, 0, 0x11, 0xFF, 0x11, 0xFF, 0x33, 0xFF, 0xFF, 0xFF,
       0xD3, 0xFF, 0xFF, 0xFF, 0xFF, 0xE3, 0xFF, 0xFF, 0xFF, 0xFF, 0xFF, 0xFF, 0xFF, 0x42]"
    by code_simp
  have 3: "4 + length (token ascending_pdu) + length (options_bytes 0 (options ascending_pdu)) = 23"
    by code_simp
  show ?thesis
    using 1 separator_only_at_entry_boundary [of ascending_pdu "[0xFF, 0x42]"]
    unfolding 2 3 by simp
qed


text \<open>
  C6 (the code differs). \<open>to_bytes\<close> has no error to return for a value out of range. For
  one option with the number 65805 the delta is above 65804, and the outcome is the
  failed \<^verbatim>\<open>assert\<close> of line 181, which ends the process: nothing a caller can match on.
\<close>

theorem value_too_large_is_an_abort:
  "65804 < number (hd (options too_large_pdu)) - 0
   \<and> to_bytes too_large_pdu = Inl AssertFailed \<and> \<not> catchable AssertFailed"
  by code_simp

text \<open>
  C7. The extension scheme of \<open>parse_value\<close>: a nibble below 13 is the value itself and
  takes no byte; 13 stands for 13 plus the next byte (13 to 268); 14 for 269 plus the
  next two bytes, high byte first (269 to 65804); 15 is refused. \<open>encode_val\<close> is its
  inverse for every value up to 65804. The values 12, 13, 268 and 269 take 0, 1, 1 and 2
  extension bytes, and a message whose only option has such a delta and such a value
  length is encoded and decoded back unchanged.
\<close>

lemma parse_value_13:
  assumes "it + 1 < length bytes"
  shows "\<exists>v. parse_value bytes it 13 = Inr (v, it + 1)
           \<and> unat v = 13 + unat (bytes ! (it + 1)) \<and> 13 \<le> v \<and> v \<le> 268"
proof -
  let ?v = "13 + ucast (bytes ! (it + 1)) :: 32 word"
  have "parse_value bytes it 13 = Inr (?v, it + 1)"
    using assms by (simp add: parse_value_def deref_def)
  moreover have "unat ?v = 13 + unat (bytes ! (it + 1))"
    by (rule unat_13_plus)
  moreover have "13 \<le> ?v" "?v \<le> 268"
    using nibble_13_value [of "bytes ! (it + 1)"] by (simp_all add: word_nat_cmp)
  ultimately show ?thesis
    by blast
qed

lemma parse_value_14:
  assumes "it + 2 < length bytes"
  shows "\<exists>v. parse_value bytes it 14 = Inr (v, it + 2)
           \<and> unat v = 269 + 256 * unat (bytes ! (it + 1)) + unat (bytes ! (it + 2))
           \<and> 269 \<le> v \<and> v \<le> 65804"
proof -
  let ?v = "269 + (push_bit 8 (ucast (bytes ! (it + 1))) OR ucast (bytes ! (it + 2))) :: 32 word"
  have "parse_value bytes it 14 = Inr (?v, it + 2)"
    using assms by (simp add: parse_value_def deref_def)
  moreover have "unat ?v = 269 + 256 * unat (bytes ! (it + 1)) + unat (bytes ! (it + 2))"
    by (rule unat_269_plus)
  moreover have "269 \<le> ?v" "?v \<le> 65804"
    using nibble_14_value [of "bytes ! (it + 1)" "bytes ! (it + 2)"] by simp_all
  ultimately show ?thesis
    by blast
qed

lemma parse_value_literal: "val < 13 \<Longrightarrow> parse_value bytes it val = Inr (val, it)"
  by (auto simp: parse_value_def word_nat_cmp)

lemma single_option_roundtrip:
  assumes "d \<in> {12, 13, 268, 269}" and "length val \<in> {12, 13, 268, 269}"
  defines "p \<equiv> default_pdu\<lparr>options := [\<lparr>number = d, opt_value = val\<rparr>]\<rparr>"
  shows "length (wire_bytes p) = 5 + get_size d + get_size (size32 val) + length val"
    and "to_bytes p = Inr (wire_bytes p)" and "pdu_from (wire_bytes p) = Inr p"
proof -
  from assms(1) have d: "d \<le> 65804"
    by auto
  from assms(2) have l: "length val \<le> 65804"
    by auto
  from d l have r: "options_representable 0 (options p)"
    by (simp add: p_def)
  show len: "length (wire_bytes p) = 5 + get_size d + get_size (size32 val) + length val"
    by (simp add: wire_bytes_def length_header_bytes option_bytes_def length_ext_bytes
        payload_bytes_def p_def default_pdu_def)
  have "get_size d \<le> 2" and "get_size (size32 val) \<le> 2"
    by (rule get_size_le_2)+
  with l have "length (wire_bytes p) < 2 ^ 31"
    unfolding len by simp
  with r show "to_bytes p = Inr (wire_bytes p)"
    by (simp add: to_bytes_eq options_representable_encodable)
  show "pdu_from (wire_bytes p) = Inr p"
    using r by (intro pdu_from_wire_bytes) (simp_all add: p_def default_pdu_def)
qed

theorem extension_scheme:
  "(val < 13 \<longrightarrow> parse_value bytes it val = Inr (val, it))
   \<and> (it + 1 < length bytes \<longrightarrow>
        (\<exists>v. parse_value bytes it 13 = Inr (v, it + 1)
           \<and> unat v = 13 + unat (bytes ! (it + 1)) \<and> 13 \<le> v \<and> v \<le> 268))
   \<and> (it + 2 < length bytes \<longrightarrow>
        (\<exists>v. parse_value bytes it 14 = Inr (v, it + 2)
           \<and> unat v = 269 + 256 * unat (bytes ! (it + 1)) + unat (bytes ! (it + 2))
           \<and> 269 \<le> v \<and> v \<le> 65804))
   \<and> parse_value bytes it 15 = Inl (InvalidPdu ReservedLengthField)
   \<and> (v \<le> 65804 \<and> length zs = get_size v \<longrightarrow>
        encode_val (get_nibble v) v (pre @ d # zs @ post) (length pre)
          = Inr (pre @ d # ext_bytes v @ post, length pre + get_size v)
        \<and> parse_value (pre @ d # ext_bytes v @ post) (length pre) (ucast (get_nibble v))
          = Inr (v, length pre + get_size v))
   \<and> (get_nibble 12, get_size 12) = (12, 0) \<and> (get_nibble 13, get_size 13) = (13, 1)
   \<and> (get_nibble 268, get_size 268) = (13, 1) \<and> (get_nibble 269, get_size 269) = (14, 2)
   \<and> (delta \<in> {12, 13, 268, 269} \<and> length val' \<in> {12, 13, 268, 269} \<longrightarrow>
        to_bytes (default_pdu\<lparr>options := [\<lparr>number = delta, opt_value = val'\<rparr>]\<rparr>)
          = Inr (wire_bytes (default_pdu\<lparr>options := [\<lparr>number = delta, opt_value = val'\<rparr>]\<rparr>))
        \<and> pdu_from (wire_bytes (default_pdu\<lparr>options := [\<lparr>number = delta, opt_value = val'\<rparr>]\<rparr>))
          = Inr (default_pdu\<lparr>options := [\<lparr>number = delta, opt_value = val'\<rparr>]\<rparr>)
        \<and> length (wire_bytes (default_pdu\<lparr>options := [\<lparr>number = delta, opt_value = val'\<rparr>]\<rparr>))
          = 5 + get_size delta + get_size (size32 val') + length val')"
proof -
  have "parse_value bytes it 15 = Inl (InvalidPdu ReservedLengthField)"
    by (simp add: parse_value_def)
  moreover have "(get_nibble 12, get_size 12) = (12, 0)" "(get_nibble 13, get_size 13) = (13, 1)"
    "(get_nibble 268, get_size 268) = (13, 1)" "(get_nibble 269, get_size 269) = (14, 2)"
    by (simp_all add: get_nibble_def get_size_def)
  ultimately show ?thesis
    using parse_value_literal [of val bytes it] parse_value_13 [of it bytes]
      parse_value_14 [of it bytes] encode_val_append [of v zs pre d post]
      parse_value_encoded [of v pre d post] single_option_roundtrip [of delta val']
    by blast
qed

theorem extension_scheme_witness:
  "parse_value [0x0C] 0 12 = Inr (12, 0)
   \<and> parse_value [0xD0, 0x00] 0 13 = Inr (13, 1)
   \<and> parse_value [0xD0, 0xFF] 0 13 = Inr (268, 1)
   \<and> parse_value [0xE0, 0x00, 0x00] 0 14 = Inr (269, 2)
   \<and> parse_value [0xE0, 0xFF, 0xFF] 0 14 = Inr (65804, 2)
   \<and> encode_val (get_nibble 269) 269 ([] @ 0xE0 # [0x55, 0x55] @ []) (length ([] :: byte list))
       = Inr ([0xE0, 0x00, 0x00], 2)
   \<and> parse_value [0xE0, 0x00, 0x00] 0 (ucast (get_nibble 269)) = Inr (269, 2)
   \<and> pdu_from (wire_bytes (default_pdu\<lparr>options := [\<lparr>number = 268, opt_value = replicate 13 0xFF\<rparr>]\<rparr>))
       = Inr (default_pdu\<lparr>options := [\<lparr>number = 268, opt_value = replicate 13 0xFF\<rparr>]\<rparr>)
   \<and> length (wire_bytes (default_pdu\<lparr>options := [\<lparr>number = 268, opt_value = replicate 13 0xFF\<rparr>]\<rparr>))
       = 20"
proof -
  have 1: "parse_value [0x0C] 0 12 = Inr (12, 0)" "parse_value [0xD0, 0x00] 0 13 = Inr (13, 1)"
    "parse_value [0xD0, 0xFF] 0 13 = Inr (268, 1)"
    "parse_value [0xE0, 0x00, 0x00] 0 14 = Inr (269, 2)"
    "parse_value [0xE0, 0xFF, 0xFF] 0 14 = Inr (65804, 2)"
    by code_simp+
  have 2: "(269 :: 32 word) \<le> 65804 \<and> length [0x55, 0x55 :: byte] = get_size 269"
    by (simp add: get_size_def)
  have 3: "ext_bytes 269 = [0x00, 0x00]" "get_size 269 = 2" "get_size 268 = 1"
    "get_size (size32 (replicate 13 (0xFF :: byte))) = 1" "get_nibble 269 = 14"
    by code_simp+
  have 4: "(268 :: 32 word) \<in> {12, 13, 268, 269}
    \<and> length (replicate 13 (0xFF :: byte)) \<in> {12, 13, 268, 269}"
    by simp
  show ?thesis
    using 2 4 extension_scheme [where v = 269 and zs = "[0x55, 0x55]" and pre = "[]"
        and d = "0xE0" and post = "[]" and delta = 268 and val' = "replicate 13 0xFF"
        and val = 12 and bytes = "[0x0C]" and it = 0]
    by (simp add: 1 3)
qed

text \<open>
  C4 (the code differs). The bounds check of the option loop comes after the extension
  bytes have been read: when the buffer ends inside the extension bytes of a delta or a
  length, \<open>parse_value\<close> dereferences the iterator behind the last byte. Only a value
  that runs past the end, and a nibble of 15, are detected and thrown. Decoding has no
  other way to fail (\<open>pdu_from_failures\<close>).
\<close>

lemma pdu_from_failures:
  assumes "pdu_from b = Inl e"
  shows "malformed_header e \<or> e = InvalidPdu TruncatedToken \<or> malformed_option e
           \<or> e = ReadPastEnd"
proof (cases "parse_header b")
  case (Inl e')
  with assms show ?thesis
    by (auto simp: pdu_from_def dest: parse_header_Inl_malformed)
next
  case (Inr r)
  obtain h tkl where r: "r = (h, tkl)"
    by (cases r)
  show ?thesis
  proof (cases "parse_options b (4 + tkl) 0 []")
    case (Inl e')
    with assms Inr r show ?thesis
      by (auto simp: pdu_from_unfold malformed_option_def split: if_splits
               dest: parse_options_Inl)
  next
    case inr: (Inr x)
    with assms Inr r show ?thesis
      by (cases x) (auto simp: pdu_from_unfold split: if_splits)
  qed
qed

theorem extension_bytes_read_unchecked:
  "pdu_from [0x40, 0, 0, 0, 0xD0] = Inl ReadPastEnd
   \<and> pdu_from [0x40, 0, 0, 0, 0x0D] = Inl ReadPastEnd
   \<and> pdu_from [0x40, 0, 0, 0, 0xE0, 0x01] = Inl ReadPastEnd
   \<and> pdu_from [0x40, 0, 0, 0, 0x01] = Inl (InvalidPdu TruncatedOption)
   \<and> pdu_from [0x40, 0, 0, 0, 0xF0] = Inl (InvalidPdu ReservedLengthField)"
  by code_simp

text \<open>
  C2 (the code differs). \<open>add_option\<close> appends: the options of the scenario stay in call
  order 66077, 5, 1, 2, 273, the first delta is 66077, and \<open>to_bytes\<close> fails its
  assertion. The bytes the test expects are those of the options in ascending order,
  which is the order \<open>add_option_multimap\<close> keeps.
\<close>

theorem options_stay_in_call_order:
  "build scenario_calls default_pdu = Inr scenario_pdu
   \<and> map number (options scenario_pdu) = [66077, 5, 1, 2, 273]
   \<and> to_bytes scenario_pdu = Inl AssertFailed
   \<and> to_bytes ascending_pdu = Inr scenario_target
   \<and> fold (\<lambda>opt p. snd (add_option_multimap (number opt) (opt_value opt) p)) scenario_options
         (ascending_pdu\<lparr>options := []\<rparr>) = ascending_pdu"
  by code_simp

end
